theory Spec2Isabelle
  imports Complex_Main "HOL-Library.Sublist"
begin


chapter \<open>The search engine of the product catalog\<close>

text \<open>
  A model of the class \<open>FerreteriaSearchSystem\<close>: the normalization of the raw
  catalog (\<open>processProducts\<close>), the inverted index (\<open>buildSearchStructures\<close>), the
  search with its scoring, threshold, ranking and cache (\<open>performSearch\<close>,
  \<open>findRelevantProducts\<close>, \<open>calculateProductScores\<close>, \<open>cacheSearchResults\<close>), the
  manual re-sort (\<open>sortResults\<close>) and the delivery of the results in batches
  (\<open>renderResults\<close>, \<open>renderProductBatch\<close>, \<open>handleScroll\<close>).  The functions keep
  the names they have in the source; the state of the object is passed explicitly, and
  an exception is the value \<open>Inl\<close> of a sum.
\<close>

section \<open>JavaScript values as the engine sees them\<close>

text \<open>
  A JavaScript string is a sequence of UTF-16 code units; a code unit is modelled by its
  number.  \<open>js\<close> turns an ASCII literal into such a string.
\<close>

type_synonym jsstring = "nat list"

definition js :: "string \<Rightarrow> jsstring" where
  "js s = map of_char s"

text \<open>
  Numbers: IEEE doubles are modelled by the rationals together with \<open>NaN\<close> and the two
  infinities; rounding and the sign of zero are not modelled.
\<close>

datatype jsnum = NaN | NegInf | Fin rat | PosInf

text \<open>
  A field of a record parsed from \<open>products.json\<close>.  \<open>Undefined\<close> is an absent field.
  An array or object is represented by the string its \<open>toString()\<close> yields
  (\<open>Obj\<close>), which is all that the coercions below read of it.
\<close>

datatype jsval = Undefined | Null | Bool bool | Num jsnum | Str jsstring | Obj jsstring

text \<open>
  Tables of the JavaScript runtime that the repository calls but does not define: the
  lower-casing and canonical decomposition of one non-ASCII code unit, the decimal
  rendering of a number and the parsing of a numeric string.
\<close>

record host =
  unicode_fold :: "nat \<Rightarrow> jsstring"
  NumberToString :: "jsnum \<Rightarrow> jsstring"
  StringToNumber :: "jsstring \<Rightarrow> jsnum"

fun truthy :: "jsval \<Rightarrow> bool" where
  "truthy Undefined = False"
| "truthy Null = False"
| "truthy (Bool b) = b"
| "truthy (Num n) = (n \<noteq> NaN \<and> n \<noteq> Fin 0)"
| "truthy (Str s) = (s \<noteq> [])"
| "truthy (Obj s) = True"

fun ToString :: "host \<Rightarrow> jsval \<Rightarrow> jsstring" where
  "ToString h Undefined = js ''undefined''"
| "ToString h Null = js ''null''"
| "ToString h (Bool b) = (if b then js ''true'' else js ''false'')"
| "ToString h (Num n) = NumberToString h n"
| "ToString h (Str s) = s"
| "ToString h (Obj s) = s"

fun ToNumber :: "host \<Rightarrow> jsval \<Rightarrow> jsnum" where
  "ToNumber h Undefined = NaN"
| "ToNumber h Null = Fin 0"
| "ToNumber h (Bool b) = Fin (if b then 1 else 0)"
| "ToNumber h (Num n) = n"
| "ToNumber h (Str s) = StringToNumber h s"
| "ToNumber h (Obj s) = StringToNumber h s"

text \<open>\<open>a || b\<close> on values and \<open>n || 0\<close> on numbers.\<close>

definition js_or :: "jsval \<Rightarrow> jsval \<Rightarrow> jsval" where
  "js_or a b = (if truthy a then a else b)"

definition num_or_zero :: "jsnum \<Rightarrow> jsnum" where
  "num_or_zero n = (if n = NaN \<or> n = Fin 0 then Fin 0 else n)"

text \<open>Subtraction of doubles, as the price comparators use it.\<close>

fun js_sub :: "jsnum \<Rightarrow> jsnum \<Rightarrow> jsnum" where
  "js_sub NaN _ = NaN"
| "js_sub _ NaN = NaN"
| "js_sub (Fin a) (Fin b) = Fin (a - b)"
| "js_sub (Fin a) PosInf = NegInf"
| "js_sub (Fin a) NegInf = PosInf"
| "js_sub PosInf PosInf = NaN"
| "js_sub PosInf _ = PosInf"
| "js_sub NegInf NegInf = NaN"
| "js_sub NegInf _ = NegInf"

text \<open>Whether a comparator result is \<open>> 0\<close>; \<open>Array.prototype.sort\<close> reads \<open>NaN\<close> as \<open>0\<close>.\<close>

fun js_pos :: "jsnum \<Rightarrow> bool" where
  "js_pos (Fin r) = (0 < r)"
| "js_pos PosInf = True"
| "js_pos _ = False"

text \<open>
  \<open>Array.prototype.sort(cmp)\<close>: a stable sort; \<open>x\<close> goes before the first \<open>y\<close>
  that the comparator does not put in front of it.
\<close>

fun sort_insert :: "('a \<Rightarrow> 'a \<Rightarrow> jsnum) \<Rightarrow> 'a \<Rightarrow> 'a list \<Rightarrow> 'a list" where
  "sort_insert cmp x [] = [x]"
| "sort_insert cmp x (y # ys) =
     (if js_pos (cmp x y) then y # sort_insert cmp x ys else x # y # ys)"

definition array_sort :: "('a \<Rightarrow> 'a \<Rightarrow> jsnum) \<Rightarrow> 'a list \<Rightarrow> 'a list" where
  "array_sort cmp xs = foldr (sort_insert cmp) xs []"

section \<open>String primitives\<close>

text \<open>The code units matched by \<open>\s\<close> and removed by \<open>trim()\<close>.\<close>

definition is_ws :: "nat \<Rightarrow> bool" where
  "is_ws c \<longleftrightarrow>
     (9 \<le> c \<and> c \<le> 13) \<or> c = 32 \<or> c = 160 \<or> c = 5760 \<or> (8192 \<le> c \<and> c \<le> 8202) \<or>
     c = 8232 \<or> c = 8233 \<or> c = 8239 \<or> c = 8287 \<or> c = 12288 \<or> c = 65279"

text \<open>The class \<open>[a-z0-9]\<close>.\<close>

definition is_az09 :: "nat \<Rightarrow> bool" where
  "is_az09 c \<longleftrightarrow> (97 \<le> c \<and> c \<le> 122) \<or> (48 \<le> c \<and> c \<le> 57)"

text \<open>The class \<open>\w\<close>, which decides where \<open>\b\<close> matches.\<close>

definition is_wordchar :: "nat \<Rightarrow> bool" where
  "is_wordchar c \<longleftrightarrow> is_az09 c \<or> (65 \<le> c \<and> c \<le> 90) \<or> c = 95"

definition trim :: "jsstring \<Rightarrow> jsstring" where
  "trim s = rev (dropWhile is_ws (rev (dropWhile is_ws s)))"

text \<open>
  \<open>toLowerCase().normalize('NFD')\<close> on one code unit.  ASCII is lower-cased and has no
  decomposition.  Of the white space, only U+2000 and U+2001 decompose (to U+2002 and
  U+2003).  Every other code unit is looked up in the host's table.
\<close>

definition lower_nfd :: "host \<Rightarrow> nat \<Rightarrow> jsstring" where
  "lower_nfd h c =
     (if c < 128 then [if 65 \<le> c \<and> c \<le> 90 then c + 32 else c]
      else if c = 8192 then [8194]
      else if c = 8193 then [8195]
      else if is_ws c then [c]
      else unicode_fold h c)"

text \<open>The combining diacritical marks, U+0300 to U+036F.\<close>

definition is_combining :: "nat \<Rightarrow> bool" where
  "is_combining c \<longleftrightarrow> 768 \<le> c \<and> c \<le> 879"

definition normalizeText :: "host \<Rightarrow> jsstring \<Rightarrow> jsstring" where
  "normalizeText h text = filter (\<lambda>c. \<not> is_combining c) (concat (map (lower_nfd h) text))"

text \<open>\<open>.replace(/[^a-z0-9\s]/g, ' ')\<close>\<close>

definition replace_symbols :: "jsstring \<Rightarrow> jsstring" where
  "replace_symbols s = map (\<lambda>c. if is_az09 c \<or> is_ws c then c else 32) s"

text \<open>
  \<open>.replace(/\s+/g, ' ')\<close>: every maximal run of white space becomes one space.  The
  flag says that the previous code unit was white space.
\<close>

fun unify_spaces :: "bool \<Rightarrow> jsstring \<Rightarrow> jsstring" where
  "unify_spaces in_run [] = []"
| "unify_spaces in_run (c # cs) =
     (if is_ws c then (if in_run then unify_spaces True cs else 32 # unify_spaces True cs)
      else c # unify_spaces False cs)"

definition normalizeSearchText :: "host \<Rightarrow> jsstring \<Rightarrow> jsstring" where
  "normalizeSearchText h text = trim (unify_spaces False (replace_symbols (normalizeText h text)))"

text \<open>
  \<open>.split(/\s+/)\<close>: the pieces between maximal runs of white space, the empty pieces at
  either end included; the empty string splits into one empty piece.  \<open>acc\<close> is the
  piece being read, \<open>in_run\<close> says that the previous code unit was white space.
\<close>

fun split_aux :: "bool \<Rightarrow> jsstring \<Rightarrow> jsstring \<Rightarrow> jsstring list" where
  "split_aux in_run acc [] = [acc]"
| "split_aux in_run acc (c # cs) =
     (if is_ws c then (if in_run then split_aux True acc cs else acc # split_aux True [] cs)
      else split_aux False (acc @ [c]) cs)"

definition split_ws :: "jsstring \<Rightarrow> jsstring list" where
  "split_ws s = split_aux False [] s"

text \<open>\<open>startsWith\<close> is \<^const>\<open>prefix\<close> and \<open>includes\<close> on strings is \<^const>\<open>sublist\<close>.\<close>

text \<open>
  \<open>text.match(new RegExp('\\b' + word + '\\b', 'g'))\<close>, counted.  The words the engine
  builds patterns from consist of \<open>[a-z0-9]\<close> only, so the pattern is the literal word
  between two word boundaries.  \<open>prev\<close> is the code unit before the current position;
  matches are found left to right and do not overlap (an empty match advances by one).
\<close>

definition boundary :: "nat option \<Rightarrow> nat option \<Rightarrow> bool" where
  "boundary l r \<longleftrightarrow>
     (case l of None \<Rightarrow> False | Some c \<Rightarrow> is_wordchar c) \<noteq>
     (case r of None \<Rightarrow> False | Some c \<Rightarrow> is_wordchar c)"

definition first_unit :: "jsstring \<Rightarrow> nat option" where
  "first_unit s = (case s of [] \<Rightarrow> None | c # _ \<Rightarrow> Some c)"

definition matches_here :: "jsstring \<Rightarrow> nat option \<Rightarrow> jsstring \<Rightarrow> bool" where
  "matches_here word prev text \<longleftrightarrow>
     prefix word text \<and>
     boundary prev (first_unit text) \<and>
     boundary (if word = [] then prev else Some (last word)) (first_unit (drop (length word) text))"

fun count_matches :: "jsstring \<Rightarrow> nat \<Rightarrow> nat option \<Rightarrow> jsstring \<Rightarrow> nat" where
  "count_matches word skip prev [] = (if skip = 0 \<and> matches_here word prev [] then 1 else 0)"
| "count_matches word skip prev (c # cs) =
     (if skip = 0 \<and> matches_here word prev (c # cs)
      then 1 + count_matches word (length word - 1) (Some c) cs
      else count_matches word (skip - 1) (Some c) cs)"

section \<open>The catalog\<close>

text \<open>The constants of \<open>this.CONFIG\<close>.\<close>

record weights =
  CODIGO_EXACTO :: nat
  CODIGO_STARTS_WITH :: nat
  CODIGO_CONTAINS :: nat
  DESCRIPCION_EXACTA :: nat
  DESCRIPCION_PALABRA :: nat
  DESCRIPCION_CONTAINS :: nat
  MARCA_EXACTA :: nat
  MARCA_CONTAINS :: nat
  RUBRO_EXACTO :: nat
  MULTIPLE_MATCHES :: nat

record config =
  MAX_RESULTS :: nat
  DEBOUNCE_MS :: nat
  MIN_SCORE :: rat
  BATCH_SIZE :: nat
  CACHE_SIZE :: nat
  SCORE_WEIGHTS :: weights

definition CONFIG :: config where
  "CONFIG = \<lparr> MAX_RESULTS = 25, DEBOUNCE_MS = 350, MIN_SCORE = 15 / 100, BATCH_SIZE = 15,
     CACHE_SIZE = 50,
     SCORE_WEIGHTS = \<lparr> CODIGO_EXACTO = 100, CODIGO_STARTS_WITH = 50, CODIGO_CONTAINS = 30,
       DESCRIPCION_EXACTA = 40, DESCRIPCION_PALABRA = 35, DESCRIPCION_CONTAINS = 20,
       MARCA_EXACTA = 25, MARCA_CONTAINS = 15, RUBRO_EXACTO = 10, MULTIPLE_MATCHES = 5 \<rparr> \<rparr>"

text \<open>
  A raw catalog record is a JSON object: a field name gives a value, \<open>Undefined\<close> when
  the field is absent.  The catalog is a list of such objects.
\<close>

type_synonym raw_product = "string \<Rightarrow> jsval"

text \<open>
  An entry of \<open>state.products\<close> (of the raw record's other fields, which the engine
  never reads, nothing is kept) and an entry of \<open>state.normalizedData\<close>, which repeats
  the five fields and adds the derived ones.
\<close>

record product =
  codigo :: jsstring
  descripcion :: jsstring
  rubro :: jsstring
  marca :: jsstring
  precio_venta :: jsnum

record normalized = product +
  index :: nat
  searchText :: jsstring
  codigoNormalized :: jsstring
  descripcionNormalized :: jsstring
  marcaNormalized :: jsstring
  rubroNormalized :: jsstring

text \<open>
  A candidate of \<open>findRelevantProducts\<close> (its \<open>index\<close> field is \<open>position\<close> here)
  and a scored result.
\<close>

record item =
  product :: product
  normalized :: normalized
  position :: nat

record scored = item +
  score :: rat

datatype error = TypeError

text \<open>
  A \<open>Map\<close> is an association list in insertion order with unique keys, a \<open>Set\<close> a
  list in insertion order without duplicates.
\<close>

fun map_set :: "'k \<Rightarrow> 'v \<Rightarrow> ('k \<times> 'v) list \<Rightarrow> ('k \<times> 'v) list" where
  "map_set k v [] = [(k, v)]"
| "map_set k v (e # m) = (if fst e = k then (k, v) # m else e # map_set k v m)"

definition map_delete :: "'k \<Rightarrow> ('k \<times> 'v) list \<Rightarrow> ('k \<times> 'v) list" where
  "map_delete k m = filter (\<lambda>e. fst e \<noteq> k) m"

definition set_add :: "'a \<Rightarrow> 'a list \<Rightarrow> 'a list" where
  "set_add x xs = (if x \<in> set xs then xs else xs @ [x])"

definition new_Set :: "'a list \<Rightarrow> 'a list" where
  "new_Set xs = fold set_add xs []"

text \<open>
  The engine.  Arrays that the code shares and sorts in place (\<open>state.results\<close> and the
  values of \<open>searchCache\<close>) live in the store \<open>arrays\<close> and are named by their
  address; \<open>container\<close> is the list of results whose cards are the children of
  \<open>refs.productsContainer\<close>.
\<close>

record state =
  products :: "product list"
  normalizedData :: "normalized list"
  searchIndex :: "(jsstring \<times> nat list) list"
  rubros :: "jsstring list"
  searchTerm :: jsstring
  currentRubro :: jsstring
  results :: nat
  offset :: nat
  hasMore :: bool
  isLoading :: bool
  searchCache :: "(jsstring \<times> nat) list"
  arrays :: "scored list list"
  container :: "scored list"

text \<open>The array at an address; no reference of the program dangles, so the default is never read.\<close>

definition array_at :: "state \<Rightarrow> nat \<Rightarrow> scored list" where
  "array_at s a = (if a < length (arrays s) then arrays s ! a else [])"

text \<open>The state the constructor sets up; \<open>results: []\<close> allocates the first array.\<close>

definition constructor :: state where
  "constructor = \<lparr> products = [], normalizedData = [], searchIndex = [], rubros = [],
     searchTerm = [], currentRubro = [], results = 0, offset = 0, hasMore = False,
     isLoading = False, searchCache = [], arrays = [[]], container = [] \<rparr>"

subsection \<open>processProducts\<close>

text \<open>\<open>normalizeText\<close> applied to a value: only a string has \<open>toLowerCase\<close>.\<close>

definition normalizeText_val :: "host \<Rightarrow> jsval \<Rightarrow> error + jsstring" where
  "normalizeText_val h v = (case v of Str s \<Rightarrow> Inr (normalizeText h s) | _ \<Rightarrow> Inl TypeError)"

text \<open>
  The callback of \<open>products.forEach\<close>: \<open>Inr None\<close> is the early return that skips the
  record, \<open>Inl\<close> the exception that leaves the loop.
\<close>

definition processProduct :: "host \<Rightarrow> nat \<Rightarrow> raw_product \<Rightarrow> error + normalized option" where
  "processProduct h i p =
     (if \<not> truthy (p ''codigo'') \<or> \<not> truthy (p ''descripcion'') \<or> \<not> truthy (p ''precio_venta'')
      then Inr None
      else
        case normalizeText_val h (p ''codigo'') of Inl e \<Rightarrow> Inl e | Inr cn \<Rightarrow>
        case normalizeText_val h (p ''descripcion'') of Inl e \<Rightarrow> Inl e | Inr dn \<Rightarrow>
        case normalizeText_val h (js_or (p ''marca'') (Str [])) of Inl e \<Rightarrow> Inl e | Inr mn \<Rightarrow>
        case normalizeText_val h (js_or (p ''rubro'') (Str [])) of Inl e \<Rightarrow> Inl e | Inr rn \<Rightarrow>
        Inr (Some \<lparr>
          codigo = trim (ToString h (p ''codigo'')),
          descripcion = trim (ToString h (p ''descripcion'')),
          rubro = trim (ToString h (js_or (p ''rubro'') (Str []))),
          marca = trim (ToString h (js_or (p ''marca'') (Str []))),
          precio_venta = num_or_zero (ToNumber h (p ''precio_venta'')),
          index = i,
          searchText = normalizeSearchText h
            (ToString h (p ''codigo'') @ [32] @ ToString h (p ''descripcion'') @ [32] @
             ToString h (p ''marca'') @ [32] @ ToString h (p ''rubro'')),
          codigoNormalized = cn,
          descripcionNormalized = dn,
          marcaNormalized = mn,
          rubroNormalized = rn \<rparr>))"

definition product_of :: "normalized \<Rightarrow> product" where
  "product_of n = \<lparr> codigo = codigo n, descripcion = descripcion n, rubro = rubro n,
     marca = marca n, precio_venta = precio_venta n \<rparr>"

fun processProducts_loop :: "host \<Rightarrow> nat \<Rightarrow> raw_product list \<Rightarrow> state \<Rightarrow> error + state" where
  "processProducts_loop h i [] s = Inr s"
| "processProducts_loop h i (p # ps) s =
     (case processProduct h i p of
        Inl e \<Rightarrow> Inl e
      | Inr None \<Rightarrow> processProducts_loop h (Suc i) ps s
      | Inr (Some n) \<Rightarrow>
          processProducts_loop h (Suc i) ps
            (s\<lparr> products := products s @ [product_of n],
                normalizedData := normalizedData s @ [n],
                rubros := (if rubro n \<noteq> [] then set_add (rubro n) (rubros s) else rubros s) \<rparr>))"

definition processProducts :: "host \<Rightarrow> raw_product list \<Rightarrow> state \<Rightarrow> error + state" where
  "processProducts h ps s =
     processProducts_loop h 0 ps (s\<lparr> products := [], normalizedData := [], rubros := [] \<rparr>)"

subsection \<open>buildSearchStructures\<close>

text \<open>One pass of the inner \<open>words.forEach\<close>: the position joins the word's set.\<close>

definition index_word :: "nat \<Rightarrow> jsstring \<Rightarrow> (jsstring \<times> nat list) list \<Rightarrow> (jsstring \<times> nat list) list" where
  "index_word i word idx =
     (if 2 \<le> length word
      then (case map_of idx word of
              None \<Rightarrow> map_set word (set_add i []) idx
            | Some ps \<Rightarrow> map_set word (set_add i ps) idx)
      else idx)"

fun index_products :: "nat \<Rightarrow> normalized list \<Rightarrow> (jsstring \<times> nat list) list \<Rightarrow> (jsstring \<times> nat list) list" where
  "index_products i [] idx = idx"
| "index_products i (n # ns) idx =
     index_products (Suc i) ns (fold (index_word i) (new_Set (split_ws (searchText n))) idx)"

definition buildSearchStructures :: "state \<Rightarrow> state" where
  "buildSearchStructures s = s\<lparr> searchIndex := index_products 0 (normalizedData s) [] \<rparr>"

text \<open>\<open>init\<close>: the catalog is processed, then indexed; a failed load leaves no engine.\<close>

definition init :: "host \<Rightarrow> raw_product list \<Rightarrow> error + state" where
  "init h raw = (case processProducts h raw constructor of
                   Inl e \<Rightarrow> Inl e
                 | Inr s \<Rightarrow> Inr (buildSearchStructures s))"

section \<open>The query engine\<close>

definition searchWords :: "host \<Rightarrow> jsstring \<Rightarrow> jsstring list" where
  "searchWords h term = filter (\<lambda>word. 2 \<le> length word) (split_ws (normalizeSearchText h term))"

text \<open>\<open>this.state.searchIndex.get(word) || new Set()\<close>\<close>

definition index_get :: "state \<Rightarrow> jsstring \<Rightarrow> nat list" where
  "index_get s word = (case map_of (searchIndex s) word of None \<Rightarrow> [] | Some ps \<Rightarrow> ps)"

text \<open>The \<open>searchWords.forEach\<close> of \<open>findRelevantProducts\<close>, started with \<open>null\<close>.\<close>

fun intersect_words :: "state \<Rightarrow> jsstring list \<Rightarrow> nat \<Rightarrow> nat list option \<Rightarrow> nat list option" where
  "intersect_words s [] i productIndices = productIndices"
| "intersect_words s (word # ws) i productIndices =
     intersect_words s ws (Suc i)
       (if i = 0 then Some (new_Set (index_get s word))
        else (case productIndices of
                None \<Rightarrow> None
              | Some ps \<Rightarrow> Some (new_Set (filter (\<lambda>idx. idx \<in> set (index_get s word)) ps))))"

text \<open>
  The candidate at a position.  A position outside the catalog would give a candidate of
  \<open>undefined\<close> fields, on which the scorer raises a \<open>TypeError\<close> before
  \<open>performSearch\<close> has changed anything; the exception is raised here.
\<close>

definition candidate :: "state \<Rightarrow> nat \<Rightarrow> error + item" where
  "candidate s i =
     (if i < length (products s) \<and> i < length (normalizedData s)
      then Inr \<lparr> product = products s ! i, normalized = normalizedData s ! i, position = i \<rparr>
      else Inl TypeError)"

fun candidates :: "state \<Rightarrow> nat list \<Rightarrow> error + item list" where
  "candidates s [] = Inr []"
| "candidates s (i # is) =
     (case candidate s i of
        Inl e \<Rightarrow> Inl e
      | Inr c \<Rightarrow> (case candidates s is of Inl e \<Rightarrow> Inl e | Inr cs \<Rightarrow> Inr (c # cs)))"

definition findRelevantProducts :: "host \<Rightarrow> state \<Rightarrow> error + item list" where
  "findRelevantProducts h s =
     (if searchTerm s = [] then Inr []
      else if searchWords h (searchTerm s) = [] then Inr []
      else (case intersect_words s (searchWords h (searchTerm s)) 0 None of
              None \<Rightarrow> Inr []
            | Some productIndices \<Rightarrow>
                if productIndices = [] then Inr [] else candidates s productIndices))"

text \<open>
  What one query word adds to the score of one candidate.  The weights are integers, so
  the sum is exact; the quotient by 100 is a rational here, and comparing two such
  quotients, or one with \<open>MIN_SCORE\<close>, gives what the doubles give.
\<close>

definition word_score :: "weights \<Rightarrow> normalized \<Rightarrow> jsstring \<Rightarrow> nat" where
  "word_score w n word =
     (if codigoNormalized n = word then CODIGO_EXACTO w
      else if prefix word (codigoNormalized n) then CODIGO_STARTS_WITH w
      else if sublist word (codigoNormalized n) then CODIGO_CONTAINS w
      else 0) +
     (if word \<in> set (split_ws (descripcionNormalized n)) then DESCRIPCION_PALABRA w
      else if sublist word (descripcionNormalized n) then DESCRIPCION_CONTAINS w
      else 0) +
     (if marcaNormalized n = word then MARCA_EXACTA w
      else if sublist word (marcaNormalized n) then MARCA_CONTAINS w
      else 0) +
     (if rubroNormalized n = word then RUBRO_EXACTO w else 0) +
     count_matches word 0 None (searchText n) * MULTIPLE_MATCHES w"

definition score_item :: "config \<Rightarrow> host \<Rightarrow> state \<Rightarrow> item \<Rightarrow> scored" where
  "score_item cfg h s it =
     (let total = (\<Sum>word \<leftarrow> searchWords h (searchTerm s). word_score (SCORE_WEIGHTS cfg) (normalized it) word);
          total' = (if currentRubro s \<noteq> [] \<and> rubro (product it) \<noteq> currentRubro s then 0 else total)
      in \<lparr> product = product it, normalized = normalized it, position = position it,
           score = of_nat total' / 100 \<rparr>)"

definition calculateProductScores :: "config \<Rightarrow> host \<Rightarrow> state \<Rightarrow> item list \<Rightarrow> scored list" where
  "calculateProductScores cfg h s its =
     (if searchTerm s = [] \<or> its = [] then [] else map (score_item cfg h s) its)"

definition getCacheKey :: "state \<Rightarrow> jsstring" where
  "getCacheKey s = searchTerm s @ [45] @ currentRubro s"

text \<open>
  \<open>cacheSearchResults\<close>: at capacity the first key of the map goes; the key then maps
  to a fresh copy of the current result array.
\<close>

definition cacheSearchResults :: "config \<Rightarrow> jsstring \<Rightarrow> state \<Rightarrow> state" where
  "cacheSearchResults cfg key s =
     (let cache = (if CACHE_SIZE cfg \<le> length (searchCache s)
                   then (case searchCache s of [] \<Rightarrow> [] | e # _ \<Rightarrow> map_delete (fst e) (searchCache s))
                   else searchCache s)
      in s\<lparr> searchCache := map_set key (length (arrays s)) cache,
             arrays := arrays s @ [array_at s (results s)] \<rparr>)"

subsection \<open>Result delivery\<close>

definition renderProductBatch :: "config \<Rightarrow> state \<Rightarrow> state" where
  "renderProductBatch cfg s =
     (if length (array_at s (results s)) = 0 then s
      else
        let start = offset s;
            end = min (start + BATCH_SIZE cfg) (length (array_at s (results s)));
            batch = take (end - start) (drop start (array_at s (results s)))
        in s\<lparr> container := container s @ batch,
               offset := end,
               hasMore := (end < length (array_at s (results s))) \<rparr>)"

definition renderResults :: "config \<Rightarrow> state \<Rightarrow> state" where
  "renderResults cfg s =
     (let s1 = s\<lparr> offset := 0,
                  hasMore := (BATCH_SIZE cfg < length (array_at s (results s))),
                  container := [] \<rparr>
      in if length (array_at s1 (results s1)) = 0 then s1 else renderProductBatch cfg s1)"

text \<open>
  \<open>handleScroll\<close>; \<open>near\<close> says that the viewport is within 100 pixels of the end of
  the container.  The batch scheduled with \<open>requestAnimationFrame\<close> is rendered at once.
\<close>

definition handleScroll :: "config \<Rightarrow> bool \<Rightarrow> state \<Rightarrow> state" where
  "handleScroll cfg near s =
     (if \<not> hasMore s \<or> isLoading s then s
      else if near then (renderProductBatch cfg (s\<lparr> isLoading := True \<rparr>))\<lparr> isLoading := False \<rparr>
      else s)"

subsection \<open>performSearch and the controls\<close>

definition performSearch :: "config \<Rightarrow> host \<Rightarrow> state \<Rightarrow> error + state" where
  "performSearch cfg h s =
     (let cacheKey = getCacheKey s in
      case map_of (searchCache s) cacheKey of
        Some a \<Rightarrow> Inr (renderResults cfg (s\<lparr> results := a \<rparr>))
      | None \<Rightarrow>
          (case findRelevantProducts h s of
             Inl e \<Rightarrow> Inl e
           | Inr relevantProducts \<Rightarrow>
               let scoredResults = calculateProductScores cfg h s relevantProducts;
                   rs = take (MAX_RESULTS cfg)
                          (array_sort (\<lambda>a b. Fin (score b - score a))
                             (filter (\<lambda>result. MIN_SCORE cfg \<le> score result) scoredResults));
                   s1 = s\<lparr> results := length (arrays s), arrays := arrays s @ [rs] \<rparr>
               in Inr (renderResults cfg (cacheSearchResults cfg cacheKey s1))))"

definition sortResults :: "jsstring \<Rightarrow> state \<Rightarrow> state" where
  "sortResults sortType s =
     (if length (array_at s (results s)) = 0 then s
      else s\<lparr> arrays := (arrays s)[results s :=
               array_sort
                 (if sortType = js ''price_asc''
                    then (\<lambda>a b. js_sub (precio_venta (product a)) (precio_venta (product b)))
                  else if sortType = js ''price_desc''
                    then (\<lambda>a b. js_sub (precio_venta (product b)) (precio_venta (product a)))
                  else (\<lambda>a b. Fin (score b - score a)))
                 (array_at s (results s))] \<rparr>)"

definition clearSearch :: "state \<Rightarrow> state" where
  "clearSearch s = s\<lparr> searchTerm := [], currentRubro := [],
                      results := length (arrays s), arrays := arrays s @ [[]] \<rparr>"

text \<open>
  The handler of the sort control: \<open>sortResults\<close>, then \<open>renderResults\<close>.
\<close>

definition sortChange :: "config \<Rightarrow> jsstring \<Rightarrow> state \<Rightarrow> state" where
  "sortChange cfg sortType s = renderResults cfg (sortResults sortType s)"

text \<open>
  The states a loaded engine \<open>s0\<close> can get into.  \<open>handleSearchInput\<close> stores the
  (trimmed) text, the category control stores its value, and \<open>performSearch\<close> runs
  when the debounce timer fires or the category changes; the sort control, the clear
  button and scrolling are the other handlers.  Any text and any category value are
  allowed, in any order.
\<close>

inductive reachable :: "config \<Rightarrow> host \<Rightarrow> state \<Rightarrow> state \<Rightarrow> bool"
  for cfg :: config and h :: host and s0 :: state where
    loaded: "reachable cfg h s0 s0"
  | input: "reachable cfg h s0 s \<Longrightarrow> reachable cfg h s0 (s\<lparr> searchTerm := t \<rparr>)"
  | rubroFilter: "reachable cfg h s0 s \<Longrightarrow> reachable cfg h s0 (s\<lparr> currentRubro := r \<rparr>)"
  | performed: "reachable cfg h s0 s \<Longrightarrow> performSearch cfg h s = Inr s' \<Longrightarrow> reachable cfg h s0 s'"
  | sorted: "reachable cfg h s0 s \<Longrightarrow> reachable cfg h s0 (sortChange cfg sortType s)"
  | cleared: "reachable cfg h s0 s \<Longrightarrow> reachable cfg h s0 (clearSearch s)"
  | scrolled: "reachable cfg h s0 s \<Longrightarrow> reachable cfg h s0 (handleScroll cfg near s)"

text \<open>
  The search operation of the specification, \<open>search(queryText, categoryFilter)\<close>: the
  query text and the filter are stored as the handlers store them, then
  \<open>performSearch\<close> runs.  The list it returns is the array \<open>state.results\<close> names.
\<close>

definition search :: "config \<Rightarrow> host \<Rightarrow> jsstring \<Rightarrow> jsstring \<Rightarrow> state \<Rightarrow> error + state" where
  "search cfg h queryText categoryFilter s =
     performSearch cfg h (s\<lparr> searchTerm := queryText, currentRubro := categoryFilter \<rparr>)"

definition current_results :: "state \<Rightarrow> scored list" where
  "current_results s = array_at s (results s)"

text \<open>A sequence of searches, one after the other; it stops at the first exception.\<close>

fun searches :: "config \<Rightarrow> host \<Rightarrow> (jsstring \<times> jsstring) list \<Rightarrow> state \<Rightarrow> error + state" where
  "searches cfg h [] s = Inr s"
| "searches cfg h (q # qs) s =
     (case search cfg h (fst q) (snd q) s of
        Inl e \<Rightarrow> Inl e
      | Inr s' \<Rightarrow> searches cfg h qs s')"

text \<open>The cache key of a query text and a category, as \<open>getCacheKey\<close> builds it.\<close>

definition cache_key :: "jsstring \<times> jsstring \<Rightarrow> jsstring" where
  "cache_key q = fst q @ [45] @ snd q"

section \<open>Derived notions used in the statements\<close>

text \<open>The cards a step appends to the container: the page it delivers.\<close>

definition delivered :: "state \<Rightarrow> state \<Rightarrow> scored list" where
  "delivered s s' = drop (length (container s)) (container s')"

text \<open>A reset followed by \<open>n\<close> page requests made at the end of the viewport.\<close>

fun scrolls :: "config \<Rightarrow> nat \<Rightarrow> state \<Rightarrow> state" where
  "scrolls cfg 0 s = renderResults cfg s"
| "scrolls cfg (Suc n) s = handleScroll cfg True (scrolls cfg n s)"

text \<open>The result window is consistent: what is displayed is the prefix up to \<open>offset\<close>.\<close>

definition window_ok :: "state \<Rightarrow> bool" where
  "window_ok s \<longleftrightarrow>
     offset s \<le> length (current_results s) \<and>
     container s = take (offset s) (current_results s) \<and>
     hasMore s = (offset s < length (current_results s))"

text \<open>
  Every entry of the index is a word of at least two code units with positions inside
  the catalog, below \<open>n\<close>, whose search text has that word.
\<close>

definition index_sound :: "normalized list \<Rightarrow> nat \<Rightarrow> (jsstring \<times> nat list) list \<Rightarrow> bool" where
  "index_sound ns n idx \<longleftrightarrow>
     (\<forall>(word, ps) \<in> set idx. 2 \<le> length word \<and>
        (\<forall>p \<in> set ps. p < n \<and> p < length ns \<and> word \<in> set (split_ws (searchText (ns ! p)))))"

text \<open>What \<open>cacheSearchResults\<close> leaves of the map before it stores the new key.\<close>

definition evict :: "config \<Rightarrow> ('k \<times> 'v) list \<Rightarrow> ('k \<times> 'v) list" where
  "evict cfg m = (if CACHE_SIZE cfg \<le> length m
                   then (case m of [] \<Rightarrow> [] | e # _ \<Rightarrow> map_delete (fst e) m) else m)"

text \<open>The cache is a map of at most \<open>CACHE_SIZE\<close> entries.\<close>

definition cache_ok :: "config \<Rightarrow> state \<Rightarrow> bool" where
  "cache_ok cfg s \<longleftrightarrow> distinct (map fst (searchCache s)) \<and> length (searchCache s) \<le> CACHE_SIZE cfg"

text \<open>The two catalog lists run in parallel and the index is sound for them.\<close>

definition catalog_ok :: "state \<Rightarrow> bool" where
  "catalog_ok s \<longleftrightarrow>
     products s = map product_of (normalizedData s) \<and>
     index_sound (normalizedData s) (length (normalizedData s)) (searchIndex s)"

text \<open>The threshold, the ranking and the cap of \<open>performSearch\<close>.\<close>

definition ranked :: "config \<Rightarrow> scored list \<Rightarrow> scored list" where
  "ranked cfg scoredResults =
     take (MAX_RESULTS cfg)
       (array_sort (\<lambda>a b. Fin (score b - score a))
          (filter (\<lambda>result. MIN_SCORE cfg \<le> score result) scoredResults))"

text \<open>The candidate at a position of the catalog.\<close>

definition item_at :: "state \<Rightarrow> nat \<Rightarrow> item" where
  "item_at s p = \<lparr> product = products s ! p, normalized = normalizedData s ! p, position = p \<rparr>"

text \<open>The comparators of \<open>sortResults\<close>.\<close>

definition by_price_asc :: "scored \<Rightarrow> scored \<Rightarrow> jsnum" where
  "by_price_asc a b = js_sub (precio_venta (product a)) (precio_venta (product b))"

definition by_score_desc :: "scored \<Rightarrow> scored \<Rightarrow> jsnum" where
  "by_score_desc a b = Fin (score b - score a)"

text \<open>The comparator \<open>sortResults\<close> picks for a value of the sort control.\<close>

definition comparator :: "jsstring \<Rightarrow> scored \<Rightarrow> scored \<Rightarrow> jsnum" where
  "comparator sortType =
     (if sortType = js ''price_asc'' then by_price_asc
      else if sortType = js ''price_desc'' then (\<lambda>a b. by_price_asc b a)
      else by_score_desc)"

text \<open>\<open>x\<close> may stand before \<open>y\<close> in a list sorted with the comparator.\<close>

definition in_order :: "('a \<Rightarrow> 'a \<Rightarrow> jsnum) \<Rightarrow> 'a \<Rightarrow> 'a \<Rightarrow> bool" where
  "in_order cmp x y \<longleftrightarrow> \<not> js_pos (cmp x y)"

text \<open>A value that \<open>normalizeText\<close> accepts: a string.\<close>

definition is_Str :: "jsval \<Rightarrow> bool" where
  "is_Str v = (case v of Str s \<Rightarrow> True | _ \<Rightarrow> False)"

text \<open>
  The text fields of a raw record are strings where \<open>processProducts\<close> lower-cases
  them: code and description, and brand and category unless they are falsy.
\<close>

definition texts_ok :: "raw_product \<Rightarrow> bool" where
  "texts_ok p \<longleftrightarrow>
     is_Str (p ''codigo'') \<and> is_Str (p ''descripcion'') \<and>
     is_Str (js_or (p ''marca'') (Str [])) \<and> is_Str (js_or (p ''rubro'') (Str []))"

text \<open>Code, description and price pass the guard of \<open>processProducts\<close>.\<close>

definition complete :: "raw_product \<Rightarrow> bool" where
  "complete p \<longleftrightarrow> truthy (p ''codigo'') \<and> truthy (p ''descripcion'') \<and> truthy (p ''precio_venta'')"

text \<open>The words of a string: the non-empty pieces of \<open>split(/\s+/)\<close>.\<close>

definition tokens :: "jsstring \<Rightarrow> jsstring set" where
  "tokens s = {w \<in> set (split_ws s). w \<noteq> []}"

text \<open>The non-empty pieces that \<open>split_aux\<close> gives from a state of the scan.\<close>

definition pieces :: "bool \<Rightarrow> jsstring \<Rightarrow> jsstring \<Rightarrow> jsstring set" where
  "pieces in_run acc s = {w \<in> set (split_aux in_run acc s). w \<noteq> []}"

text \<open>The words of a text as the engine normalizes it.\<close>

definition words_of :: "host \<Rightarrow> jsstring \<Rightarrow> jsstring set" where
  "words_of h x = tokens (normalizeSearchText h x)"

text \<open>
  What a search for the text \<open>t\<close> in the category \<open>r\<close> can return from the catalog of
  \<open>s0\<close>: scored products above the threshold whose search text has every word of
  \<open>t\<close>, scored 0 when of another category than a non-empty \<open>r\<close>.
\<close>

definition answers :: "config \<Rightarrow> host \<Rightarrow> state \<Rightarrow> jsstring \<Rightarrow> jsstring \<Rightarrow> scored set" where
  "answers cfg h s0 t r =
     {res. \<exists>p. p < length (normalizedData s0) \<and>
         normalized res = normalizedData s0 ! p \<and>
         product res = product_of (normalizedData s0 ! p) \<and>
         (\<forall>w \<in> set (searchWords h t). w \<in> set (split_ws (searchText (normalizedData s0 ! p)))) \<and>
         MIN_SCORE cfg \<le> score res \<and>
         (r \<noteq> [] \<and> rubro (product res) \<noteq> r \<longrightarrow> score res = 0)}"

text \<open>Every cached list was computed for a query and a category that have its key.\<close>

definition cache_sound :: "config \<Rightarrow> host \<Rightarrow> state \<Rightarrow> state \<Rightarrow> bool" where
  "cache_sound cfg h s0 s \<longleftrightarrow>
     (\<forall>(k, a) \<in> set (searchCache s). a < length (arrays s) \<and>
        (\<exists>t r. k = cache_key (t, r) \<and> set (arrays s ! a) \<subseteq> answers cfg h s0 t r))"

text \<open>The words of a product's category are words of its search text.\<close>

definition rubro_in_text :: "host \<Rightarrow> normalized \<Rightarrow> bool" where
  "rubro_in_text h n \<longleftrightarrow> rubro n = [] \<or> words_of h (rubro n) \<subseteq> tokens (searchText n)"

section \<open>Concrete data for the scenarios\<close>

text \<open>
  A host for catalogs written in ASCII with numeric prices: its table for the other code
  units folds nothing, and of its number conversions the scenarios use only the parsing
  of the string \<open>n/a\<close>, which is not a number.
\<close>

definition ascii_host :: host where
  "ascii_host = \<lparr> unicode_fold = (\<lambda>c. [c]), NumberToString = (\<lambda>n. js ''NaN''),
     StringToNumber = (\<lambda>s. NaN) \<rparr>"

definition raw_record :: "jsval \<Rightarrow> jsval \<Rightarrow> jsval \<Rightarrow> jsval \<Rightarrow> jsval \<Rightarrow> raw_product" where
  "raw_record c d r m p =
     (\<lambda>field. Undefined)(''codigo'' := c, ''descripcion'' := d, ''rubro'' := r,
        ''marca'' := m, ''precio_venta'' := p)"

text \<open>
  A catalog of two products: \<open>ab\<close>, "cd ef", of category \<open>d\<close>, at 10; and \<open>x1\<close>,
  "ab", of category \<open>c-d\<close>, at 5.
\<close>

definition shop :: "raw_product list" where
  "shop =
     [raw_record (Str (js ''ab'')) (Str (js ''cd ef'')) (Str (js ''d'')) (Str (js ''zz'')) (Num (Fin 10)),
      raw_record (Str (js ''x1'')) (Str (js ''ab'')) (Str (js ''c-d'')) (Str (js ''zz'')) (Num (Fin 5))]"

text \<open>The state of a computation that has not failed.\<close>

definition the_state :: "error + state \<Rightarrow> state" where
  "the_state r = (case r of Inr s \<Rightarrow> s | Inl e \<Rightarrow> constructor)"

definition shop_engine :: state where
  "shop_engine = the_state (init ascii_host shop)"

text \<open>
  The searches of the scenarios: for \<open>ab\<close> without a category, asked three times with
  a sort by ascending price before the third; and for \<open>ab-c\<close> in category \<open>d\<close>
  followed by \<open>ab\<close> in category \<open>c-d\<close>.
\<close>

definition after_ab :: state where
  "after_ab = the_state (search CONFIG ascii_host (js ''ab'') [] shop_engine)"

definition after_ab_again :: state where
  "after_ab_again = the_state (search CONFIG ascii_host (js ''ab'') [] after_ab)"

definition after_price_sort :: state where
  "after_price_sort = sortChange CONFIG (js ''price_asc'') after_ab_again"

definition after_ab_third :: state where
  "after_ab_third = the_state (search CONFIG ascii_host (js ''ab'') [] after_price_sort)"

definition after_abc_in_d :: state where
  "after_abc_in_d = the_state (search CONFIG ascii_host (js ''ab-c'') (js ''d'') shop_engine)"

definition after_ab_in_cd :: state where
  "after_ab_in_cd = the_state (search CONFIG ascii_host (js ''ab'') (js ''c-d'') after_abc_in_d)"

text \<open>Records whose price is 0, negative, and not a number.\<close>

definition free_record :: raw_product where
  "free_record = raw_record (Str (js ''ab'')) (Str (js ''cd'')) (Str (js ''d'')) (Str (js ''zz'')) (Num (Fin 0))"

definition refund_record :: raw_product where
  "refund_record = raw_record (Str (js ''ab'')) (Str (js ''cd'')) (Str (js ''d'')) (Str (js ''zz'')) (Num (Fin (- 5)))"

definition unpriced_record :: raw_product where
  "unpriced_record = raw_record (Str (js ''ab'')) (Str (js ''cd'')) (Str (js ''d'')) (Str (js ''zz'')) (Str (js ''n/a''))"

text \<open>A result list of five entries, for the paging scenario.\<close>

definition sample_result :: "jsstring \<Rightarrow> jsnum \<Rightarrow> rat \<Rightarrow> scored" where
  "sample_result c p sc =
     \<lparr> product = \<lparr> codigo = c, descripcion = [], rubro = [], marca = [], precio_venta = p \<rparr>,
       normalized = \<lparr> codigo = c, descripcion = [], rubro = [], marca = [], precio_venta = p,
         index = 0, searchText = c, codigoNormalized = c, descripcionNormalized = [],
         marcaNormalized = [], rubroNormalized = [] \<rparr>,
       position = 0, score = sc \<rparr>"

definition five_results :: state where
  "five_results = constructor \<lparr> arrays :=
     [[sample_result (js ''a1'') (Fin 1) 1, sample_result (js ''a2'') (Fin 1) 1,
       sample_result (js ''a3'') (Fin 1) 1, sample_result (js ''a4'') (Fin 1) 1,
       sample_result (js ''a5'') (Fin 1) 1]] \<rparr>"

section \<open>Frame lemmas\<close>

lemma array_at_update [simp]:
  "array_at (s\<lparr> offset := n \<rparr>) = array_at s"
  "array_at (s\<lparr> hasMore := b \<rparr>) = array_at s"
  "array_at (s\<lparr> isLoading := b \<rparr>) = array_at s"
  "array_at (s\<lparr> container := c \<rparr>) = array_at s"
  "array_at (s\<lparr> results := a \<rparr>) = array_at s"
  "array_at (s\<lparr> searchCache := m \<rparr>) = array_at s"
  "array_at (s\<lparr> searchTerm := t \<rparr>) = array_at s"
  "array_at (s\<lparr> currentRubro := t \<rparr>) = array_at s"
  by (simp_all add: array_at_def fun_eq_iff)

lemma renderProductBatch_frame [simp]:
  "results (renderProductBatch cfg s) = results s"
  "arrays (renderProductBatch cfg s) = arrays s"
  "isLoading (renderProductBatch cfg s) = isLoading s"
  "searchCache (renderProductBatch cfg s) = searchCache s"
  "products (renderProductBatch cfg s) = products s"
  "normalizedData (renderProductBatch cfg s) = normalizedData s"
  "searchIndex (renderProductBatch cfg s) = searchIndex s"
  "searchTerm (renderProductBatch cfg s) = searchTerm s"
  "currentRubro (renderProductBatch cfg s) = currentRubro s"
  by (simp_all add: renderProductBatch_def Let_def)

lemma current_results_renderProductBatch [simp]:
  "current_results (renderProductBatch cfg s) = current_results s"
  by (simp add: renderProductBatch_def current_results_def array_at_def Let_def)

lemma renderResults_frame [simp]:
  "results (renderResults cfg s) = results s"
  "arrays (renderResults cfg s) = arrays s"
  "isLoading (renderResults cfg s) = isLoading s"
  "searchCache (renderResults cfg s) = searchCache s"
  "products (renderResults cfg s) = products s"
  "normalizedData (renderResults cfg s) = normalizedData s"
  "searchIndex (renderResults cfg s) = searchIndex s"
  "searchTerm (renderResults cfg s) = searchTerm s"
  "currentRubro (renderResults cfg s) = currentRubro s"
  by (simp_all add: renderResults_def Let_def array_at_def)

lemma current_results_renderResults [simp]:
  "current_results (renderResults cfg s) = current_results s"
  by (simp add: current_results_def array_at_def)

lemma handleScroll_frame [simp]:
  "results (handleScroll cfg near s) = results s"
  "arrays (handleScroll cfg near s) = arrays s"
  "isLoading (handleScroll cfg near s) = isLoading s"
  "searchCache (handleScroll cfg near s) = searchCache s"
  "products (handleScroll cfg near s) = products s"
  "normalizedData (handleScroll cfg near s) = normalizedData s"
  "searchIndex (handleScroll cfg near s) = searchIndex s"
  "searchTerm (handleScroll cfg near s) = searchTerm s"
  "currentRubro (handleScroll cfg near s) = currentRubro s"
  by (simp_all add: handleScroll_def)

lemma current_results_handleScroll [simp]:
  "current_results (handleScroll cfg near s) = current_results s"
  by (simp add: current_results_def array_at_def)

lemma cacheSearchResults_frame [simp]:
  "results (cacheSearchResults cfg k s) = results s"
  "products (cacheSearchResults cfg k s) = products s"
  "normalizedData (cacheSearchResults cfg k s) = normalizedData s"
  "searchIndex (cacheSearchResults cfg k s) = searchIndex s"
  "searchTerm (cacheSearchResults cfg k s) = searchTerm s"
  "currentRubro (cacheSearchResults cfg k s) = currentRubro s"
  "arrays (cacheSearchResults cfg k s) = arrays s @ [array_at s (results s)]"
  by (simp_all add: cacheSearchResults_def Let_def)

lemma sortResults_frame [simp]:
  "results (sortResults ty s) = results s"
  "searchCache (sortResults ty s) = searchCache s"
  "products (sortResults ty s) = products s"
  "normalizedData (sortResults ty s) = normalizedData s"
  "searchIndex (sortResults ty s) = searchIndex s"
  "searchTerm (sortResults ty s) = searchTerm s"
  "currentRubro (sortResults ty s) = currentRubro s"
  "length (arrays (sortResults ty s)) = length (arrays s)"
  by (simp_all add: sortResults_def)

lemma clearSearch_frame [simp]:
  "searchCache (clearSearch s) = searchCache s"
  "products (clearSearch s) = products s"
  "normalizedData (clearSearch s) = normalizedData s"
  "searchIndex (clearSearch s) = searchIndex s"
  "arrays (clearSearch s) = arrays s @ [[]]"
  "results (clearSearch s) = length (arrays s)"
  by (simp_all add: clearSearch_def)

section \<open>Result delivery in pages\<close>

lemma renderProductBatch_page:
  "delivered s (renderProductBatch cfg s) =
     take (min (offset s + BATCH_SIZE cfg) (length (current_results s)) - offset s)
          (drop (offset s) (current_results s))"
  by (simp add: renderProductBatch_def current_results_def delivered_def array_at_def Let_def)

lemma renderProductBatch_offset:
  "offset (renderProductBatch cfg s) =
     (if current_results s = [] then offset s
      else min (offset s + BATCH_SIZE cfg) (length (current_results s)))"
  by (simp add: renderProductBatch_def current_results_def array_at_def Let_def)

lemma renderProductBatch_hasMore:
  "current_results s \<noteq> [] \<Longrightarrow>
   hasMore (renderProductBatch cfg s) = (offset (renderProductBatch cfg s) < length (current_results s))"
  by (simp add: renderProductBatch_def current_results_def array_at_def Let_def)

lemma slice_after_prefix:
  "start \<le> e \<Longrightarrow> take start xs @ take (e - start) (drop start xs) = take e xs"
  using take_add [of start "e - start" xs] by simp

lemma renderProductBatch_container:
  assumes "offset s \<le> length (current_results s)"
    and "container s = take (offset s) (current_results s)"
  shows "container (renderProductBatch cfg s) =
           take (offset (renderProductBatch cfg s)) (current_results s)"
proof (cases "current_results s = []")
  case True
  then show ?thesis
    using assms by (simp add: renderProductBatch_def current_results_def)
next
  case False
  let ?e = "min (offset s + BATCH_SIZE cfg) (length (current_results s))"
  have le: "offset s \<le> ?e" using assms(1) by simp
  have "container (renderProductBatch cfg s) =
          container s @ take (?e - offset s) (drop (offset s) (current_results s))"
    using False by (simp add: renderProductBatch_def current_results_def Let_def)
  also have "\<dots> = take ?e (current_results s)"
    using slice_after_prefix [OF le] assms(2) by simp
  finally show ?thesis
    using False by (simp add: renderProductBatch_offset)
qed

lemma window_ok_renderProductBatch:
  assumes "window_ok s"
  shows "window_ok (renderProductBatch cfg s)"
proof (cases "current_results s = []")
  case True
  then show ?thesis using assms by (simp add: renderProductBatch_def current_results_def)
next
  case False
  have "offset (renderProductBatch cfg s) \<le> length (current_results s)"
    using False by (simp add: renderProductBatch_offset)
  moreover have "container (renderProductBatch cfg s) =
      take (offset (renderProductBatch cfg s)) (current_results s)"
    using assms by (intro renderProductBatch_container) (simp_all add: window_ok_def)
  ultimately show ?thesis
    using False by (simp add: window_ok_def renderProductBatch_hasMore)
qed

lemma window_ok_renderResults: "window_ok (renderResults cfg s)"
proof (cases "current_results s = []")
  case True
  then show ?thesis
    by (auto simp: renderResults_def window_ok_def current_results_def array_at_def Let_def)
next
  case False
  let ?s1 = "s\<lparr> offset := 0, hasMore := (BATCH_SIZE cfg < length (array_at s (results s))), container := [] \<rparr>"
  have cr: "current_results ?s1 = current_results s"
    by (simp add: current_results_def array_at_def)
  have r: "renderResults cfg s = renderProductBatch cfg ?s1"
    using False by (simp add: renderResults_def current_results_def Let_def)
  have "offset (renderProductBatch cfg ?s1) \<le> length (current_results ?s1)"
    using False cr by (simp add: renderProductBatch_offset)
  moreover have "container (renderProductBatch cfg ?s1) =
      take (offset (renderProductBatch cfg ?s1)) (current_results ?s1)"
    by (intro renderProductBatch_container) simp_all
  moreover have "hasMore (renderProductBatch cfg ?s1) =
      (offset (renderProductBatch cfg ?s1) < length (current_results ?s1))"
    using False cr by (intro renderProductBatch_hasMore) simp
  ultimately show ?thesis
    unfolding r window_ok_def by simp
qed

lemma window_ok_isLoading [simp]:
  "window_ok (s\<lparr> isLoading := b \<rparr>) = window_ok s"
  by (simp add: window_ok_def current_results_def array_at_def)

lemma window_ok_handleScroll:
  "window_ok s \<Longrightarrow> window_ok (handleScroll cfg near s)"
  by (simp add: handleScroll_def window_ok_renderProductBatch)

lemma scrolls_frame [simp]:
  "current_results (scrolls cfg n s) = current_results s"
  by (induction n) simp_all

lemma window_ok_scrolls: "window_ok (scrolls cfg n s)"
  by (induction n) (simp_all add: window_ok_renderResults window_ok_handleScroll)

lemma handleScroll_page:
  "\<not> isLoading s \<Longrightarrow> hasMore s \<Longrightarrow>
   delivered s (handleScroll cfg True s) =
     take (min (offset s + BATCH_SIZE cfg) (length (current_results s)) - offset s)
          (drop (offset s) (current_results s))"
  using renderProductBatch_page [of "s\<lparr> isLoading := True \<rparr>" cfg]
  by (simp add: handleScroll_def delivered_def current_results_def array_at_def)

lemma scrolls_isLoading [simp]: "isLoading (scrolls cfg n s) = isLoading s"
  by (induction n) simp_all

lemma handleScroll_more:
  "\<not> isLoading s \<Longrightarrow> hasMore s \<Longrightarrow> handleScroll cfg True s = renderProductBatch cfg s"
  by (simp add: handleScroll_def renderProductBatch_def Let_def)

lemma handleScroll_no_more: "\<not> hasMore s \<Longrightarrow> handleScroll cfg near s = s"
  by (simp add: handleScroll_def)

lemma scrolls_offset_Suc:
  assumes "\<not> isLoading s" "hasMore (scrolls cfg n s)"
  shows "offset (scrolls cfg (Suc n) s) =
           min (offset (scrolls cfg n s) + BATCH_SIZE cfg) (length (current_results s))"
proof -
  have "offset (scrolls cfg n s) < length (current_results s)"
    using window_ok_scrolls [of cfg n s] assms(2) by (simp add: window_ok_def)
  then have "current_results (scrolls cfg n s) \<noteq> []" by auto
  then show ?thesis
    using assms by (simp add: handleScroll_more renderProductBatch_offset)
qed

lemma scrolls_offset_0:
  "offset (scrolls cfg 0 s) = min (BATCH_SIZE cfg) (length (current_results s))"
proof (cases "current_results s = []")
  case True
  then show ?thesis by (simp add: renderResults_def current_results_def Let_def)
next
  case False
  then show ?thesis
    by (simp add: renderResults_def current_results_def Let_def renderProductBatch_def)
qed

text \<open>
  Claim C9.  After a reset (\<open>renderResults\<close>, which already delivers the first page)
  every page request that finds \<open>hasMore\<close> set appends the slice from \<open>offset\<close> to
  \<open>min (offset + BATCH_SIZE) (length results)\<close> to the container and moves \<open>offset\<close>
  to the end of that slice; the offset never exceeds the number of results; a request
  that finds \<open>hasMore\<close> unset changes nothing and delivers nothing.  With a page size
  of 2 and 5 results the pages have 2, 2 and 1 results and the fourth request is empty.
  \<open>scrolls cfg n s\<close> is the window after the reset and \<open>n\<close> page requests.
\<close>

theorem paging:
  assumes "\<not> isLoading s"
  shows "container (scrolls cfg 0 s) =
           take (min (BATCH_SIZE cfg) (length (current_results s))) (current_results s) \<and>
         offset (scrolls cfg 0 s) = min (BATCH_SIZE cfg) (length (current_results s)) \<and>
         (hasMore (scrolls cfg n s) \<longrightarrow>
           delivered (scrolls cfg n s) (scrolls cfg (Suc n) s) =
             take (min (offset (scrolls cfg n s) + BATCH_SIZE cfg) (length (current_results s))
                    - offset (scrolls cfg n s))
                  (drop (offset (scrolls cfg n s)) (current_results s)) \<and>
           offset (scrolls cfg (Suc n) s) =
             min (offset (scrolls cfg n s) + BATCH_SIZE cfg) (length (current_results s))) \<and>
         offset (scrolls cfg n s) \<le> length (current_results s) \<and>
         hasMore (scrolls cfg n s) = (offset (scrolls cfg n s) < length (current_results s)) \<and>
         (\<not> hasMore (scrolls cfg n s) \<longrightarrow>
           scrolls cfg (Suc n) s = scrolls cfg n s \<and>
           delivered (scrolls cfg n s) (scrolls cfg (Suc n) s) = []) \<and>
         (BATCH_SIZE cfg = 2 \<and> length (current_results s) = 5 \<longrightarrow>
           length (container (scrolls cfg 0 s)) = 2 \<and>
           length (delivered (scrolls cfg 0 s) (scrolls cfg (Suc 0) s)) = 2 \<and>
           length (delivered (scrolls cfg (Suc 0) s) (scrolls cfg (Suc (Suc 0)) s)) = 1 \<and>
           \<not> hasMore (scrolls cfg (Suc (Suc 0)) s) \<and>
           delivered (scrolls cfg (Suc (Suc 0)) s) (scrolls cfg (Suc (Suc (Suc 0))) s) = [])"
    (is "?first \<and> ?off0 \<and> ?next \<and> ?bound \<and> ?more \<and> ?stop \<and> ?scenario")
proof -
  let ?rs = "current_results s"
  let ?B = "BATCH_SIZE cfg"
  have w: "window_ok (scrolls cfg k s)" for k by (rule window_ok_scrolls)
  have o0: ?off0 by (rule scrolls_offset_0)
  have first: ?first
    using w [of 0] o0 by (simp add: window_ok_def)
  have le: ?bound
    using w [of n] by (simp add: window_ok_def)
  have hm: ?more
    using w [of n] by (simp add: window_ok_def)
  have step: "delivered (scrolls cfg k s) (scrolls cfg (Suc k) s) =
        take (min (offset (scrolls cfg k s) + ?B) (length ?rs) - offset (scrolls cfg k s))
             (drop (offset (scrolls cfg k s)) ?rs)" if "hasMore (scrolls cfg k s)" for k
    using handleScroll_page [of "scrolls cfg k s" cfg] assms that by simp
  have nxt: ?next
  proof
    assume h: "hasMore (scrolls cfg n s)"
    show "delivered (scrolls cfg n s) (scrolls cfg (Suc n) s) =
             take (min (offset (scrolls cfg n s) + ?B) (length ?rs) - offset (scrolls cfg n s))
                  (drop (offset (scrolls cfg n s)) ?rs) \<and>
           offset (scrolls cfg (Suc n) s) = min (offset (scrolls cfg n s) + ?B) (length ?rs)"
      using step [OF h] scrolls_offset_Suc [OF assms h] by blast
  qed
  have stop: "scrolls cfg (Suc k) s = scrolls cfg k s \<and>
      delivered (scrolls cfg k s) (scrolls cfg (Suc k) s) = []" if "\<not> hasMore (scrolls cfg k s)" for k
    using that by (simp add: handleScroll_no_more delivered_def)
  have stp: ?stop
    using stop [of n] by blast
  have scen: ?scenario
  proof
    assume a: "?B = 2 \<and> length ?rs = 5"
    have h: "hasMore (scrolls cfg k s) = (offset (scrolls cfg k s) < 5)" for k
      using w [of k] a by (simp add: window_ok_def)
    have c: "container (scrolls cfg k s) = take (offset (scrolls cfg k s)) ?rs" for k
      using w [of k] by (simp add: window_ok_def)
    have o0': "offset (scrolls cfg 0 s) = 2" using o0 a by simp
    then have h0: "hasMore (scrolls cfg 0 s)" using h [of 0] by simp
    have o1: "offset (scrolls cfg (Suc 0) s) = 4"
      using scrolls_offset_Suc [OF assms h0] o0' a by simp
    then have h1: "hasMore (scrolls cfg (Suc 0) s)" using h [of "Suc 0"] by simp
    have o2: "offset (scrolls cfg (Suc (Suc 0)) s) = 5"
      using scrolls_offset_Suc [OF assms h1] o1 a by simp
    then have h2: "\<not> hasMore (scrolls cfg (Suc (Suc 0)) s)" using h [of "Suc (Suc 0)"] by simp
    have "length (container (scrolls cfg 0 s)) = 2" using c [of 0] o0' a by simp
    moreover have "length (delivered (scrolls cfg 0 s) (scrolls cfg (Suc 0) s)) = 2"
      using step [OF h0] o0' a by simp
    moreover have "length (delivered (scrolls cfg (Suc 0) s) (scrolls cfg (Suc (Suc 0)) s)) = 1"
      using step [OF h1] o1 a by simp
    ultimately show "length (container (scrolls cfg 0 s)) = 2 \<and>
           length (delivered (scrolls cfg 0 s) (scrolls cfg (Suc 0) s)) = 2 \<and>
           length (delivered (scrolls cfg (Suc 0) s) (scrolls cfg (Suc (Suc 0)) s)) = 1 \<and>
           \<not> hasMore (scrolls cfg (Suc (Suc 0)) s) \<and>
           delivered (scrolls cfg (Suc (Suc 0)) s) (scrolls cfg (Suc (Suc (Suc 0))) s) = []"
      using h2 stop [OF h2] by blast
  qed
  show ?thesis
    using first o0 nxt le hm stp scen by blast
qed

text \<open>The scenario on five concrete results with a page size of 2.\<close>

theorem paging_witness:
  "\<not> isLoading five_results \<and> BATCH_SIZE (CONFIG \<lparr> BATCH_SIZE := 2 \<rparr>) = 2 \<and>
   length (current_results five_results) = 5 \<and>
   hasMore (scrolls (CONFIG \<lparr> BATCH_SIZE := 2 \<rparr>) (Suc 0) five_results) \<and>
   \<not> hasMore (scrolls (CONFIG \<lparr> BATCH_SIZE := 2 \<rparr>) (Suc (Suc 0)) five_results) \<and>
   offset (scrolls (CONFIG \<lparr> BATCH_SIZE := 2 \<rparr>) (Suc (Suc 0)) five_results) = 5 \<and>
   delivered (scrolls (CONFIG \<lparr> BATCH_SIZE := 2 \<rparr>) (Suc 0) five_results)
             (scrolls (CONFIG \<lparr> BATCH_SIZE := 2 \<rparr>) (Suc (Suc 0)) five_results) =
     [sample_result (js ''a5'') (Fin 1) 1] \<and>
   delivered (scrolls (CONFIG \<lparr> BATCH_SIZE := 2 \<rparr>) (Suc (Suc 0)) five_results)
             (scrolls (CONFIG \<lparr> BATCH_SIZE := 2 \<rparr>) (Suc (Suc (Suc 0))) five_results) = []"
proof -
  have a: "\<not> isLoading five_results"
    by (simp add: five_results_def constructor_def)
  have b: "length (current_results five_results) = 5"
    by (simp add: five_results_def constructor_def current_results_def array_at_def)
  have c: "BATCH_SIZE (CONFIG \<lparr> BATCH_SIZE := 2 \<rparr>) = 2" by simp
  show ?thesis
    using paging [OF a, of "CONFIG \<lparr> BATCH_SIZE := 2 \<rparr>" "Suc 0"]
          paging [OF a, of "CONFIG \<lparr> BATCH_SIZE := 2 \<rparr>" "Suc (Suc 0)"]
    using a b c
    by (simp add: five_results_def constructor_def current_results_def array_at_def
        renderResults_def handleScroll_def renderProductBatch_def delivered_def Let_def)
qed

section \<open>The normalizer\<close>

lemma normalizeText_val_cases:
  "normalizeText_val h v =
     (if is_Str v then Inr (normalizeText h (case v of Str s \<Rightarrow> s | _ \<Rightarrow> [])) else Inl TypeError)"
  by (cases v) (simp_all add: normalizeText_val_def is_Str_def)

lemma processProduct_dropped: "processProduct h i p = Inr None \<longleftrightarrow> \<not> complete p"
  by (auto simp: processProduct_def complete_def normalizeText_val_cases)

lemma processProduct_raises: "processProduct h i p = Inl e \<longleftrightarrow> complete p \<and> \<not> texts_ok p"
  by (cases e) (auto simp: processProduct_def complete_def texts_ok_def normalizeText_val_cases)

lemma processProduct_kept: "(\<exists>n. processProduct h i p = Inr (Some n)) \<longleftrightarrow> complete p \<and> texts_ok p"
proof -
  have "(\<exists>n. processProduct h i p = Inr (Some n)) \<longleftrightarrow>
        \<not> processProduct h i p = Inr None \<and> \<not> processProduct h i p = Inl TypeError"
  proof (cases "processProduct h i p")
    case (Inl e)
    then show ?thesis by (cases e) simp
  next
    case (Inr r)
    then show ?thesis by (cases r) simp_all
  qed
  then show ?thesis
    by (auto simp: processProduct_dropped processProduct_raises)
qed

lemma processProduct_price:
  assumes "processProduct h i p = Inr (Some n)"
  shows "precio_venta n = num_or_zero (ToNumber h (p ''precio_venta''))"
  using assms by (auto simp: processProduct_def normalizeText_val_cases split: if_splits)

text \<open>
  Claim C3, as amended.  A raw record whose text fields are strings (brand and category
  may also be absent or falsy) yields a normalized item exactly when its code,
  description and price are all truthy (present and none of \<open>null\<close>, \<open>false\<close>,
  \<open>0\<close>, \<open>NaN\<close> or the empty string); a record whose code, description or price
  is falsy is dropped, whatever its other fields.  The price of a kept record is the
  numeric coercion of the raw price, and 0 when that coercion is \<open>NaN\<close>; it is never
  \<open>NaN\<close>.
\<close>

theorem kept_records_and_prices:
  "(texts_ok p \<longrightarrow> ((\<exists>n. processProduct h i p = Inr (Some n)) \<longleftrightarrow> complete p)) \<and>
   (processProduct h i p = Inr None \<longleftrightarrow> \<not> complete p) \<and>
   (processProduct h i p = Inr (Some n) \<longrightarrow>
      precio_venta n = (if ToNumber h (p ''precio_venta'') = NaN then Fin 0
                        else ToNumber h (p ''precio_venta'')) \<and>
      precio_venta n \<noteq> NaN)"
proof -
  have "precio_venta n = (if ToNumber h (p ''precio_venta'') = NaN then Fin 0
                        else ToNumber h (p ''precio_venta'')) \<and> precio_venta n \<noteq> NaN"
    if "processProduct h i p = Inr (Some n)"
    using processProduct_price [OF that] by (auto simp: num_or_zero_def)
  then show ?thesis
    using processProduct_kept [of h i p] processProduct_dropped [of h i p] by blast
qed

section \<open>The inverted index\<close>

lemma set_map_set: "set (map_set k v m) \<subseteq> insert (k, v) (set m)"
  by (induction m) auto

lemma set_set_add [simp]: "set (set_add x xs) = insert x (set xs)"
  by (auto simp: set_add_def)

lemma set_fold_set_add: "set (fold set_add xs acc) = set xs \<union> set acc"
  by (induction xs arbitrary: acc) auto

lemma set_new_Set [simp]: "set (new_Set xs) = set xs"
  by (simp add: new_Set_def set_fold_set_add)

lemma index_sound_index_word:
  assumes "index_sound ns n idx" "i < n" "i < length ns"
    and "word \<in> set (split_ws (searchText (ns ! i)))"
  shows "index_sound ns n (index_word i word idx)"
proof (cases "2 \<le> length word")
  case False
  then show ?thesis using assms(1) by (simp add: index_word_def)
next
  case True
  show ?thesis
  proof (cases "map_of idx word")
    case None
    then have "set (index_word i word idx) \<subseteq> insert (word, [i]) (set idx)"
      using True set_map_set [of word "[i]" idx] by (simp add: index_word_def set_add_def)
    then show ?thesis
      using assms True unfolding index_sound_def by fastforce
  next
    case (Some ps)
    then have mem: "(word, ps) \<in> set idx" by (rule map_of_SomeD)
    have "set (index_word i word idx) \<subseteq> insert (word, set_add i ps) (set idx)"
      using True Some set_map_set [of word "set_add i ps" idx] by (simp add: index_word_def)
    moreover have "\<forall>p \<in> set (set_add i ps). p < n \<and> p < length ns \<and> word \<in> set (split_ws (searchText (ns ! p)))"
      using mem assms unfolding index_sound_def by auto
    ultimately show ?thesis
      using assms(1) True unfolding index_sound_def by fastforce
  qed
qed

lemma index_sound_fold:
  assumes "index_sound ns n idx" "i < n" "i < length ns"
    and "set ws \<subseteq> set (split_ws (searchText (ns ! i)))"
  shows "index_sound ns n (fold (index_word i) ws idx)"
  using assms by (induction ws arbitrary: idx) (simp_all add: index_sound_index_word)

lemma index_sound_mono: "index_sound ns n idx \<Longrightarrow> n \<le> m \<Longrightarrow> index_sound ns m idx"
  unfolding index_sound_def by fastforce

lemma index_sound_index_products:
  assumes "index_sound (pre @ ns) (length pre) idx"
  shows "index_sound (pre @ ns) (length (pre @ ns)) (index_products (length pre) ns idx)"
  using assms
proof (induction ns arbitrary: pre idx)
  case Nil
  then show ?case by simp
next
  case (Cons n ns)
  let ?all = "pre @ n # ns"
  have a: "index_sound ?all (Suc (length pre)) idx"
    using Cons.prems by (rule index_sound_mono) simp
  have "index_sound ?all (Suc (length pre))
          (fold (index_word (length pre)) (new_Set (split_ws (searchText n))) idx)"
    by (rule index_sound_fold [OF a]) simp_all
  then have "index_sound ((pre @ [n]) @ ns) (length (pre @ [n]))
          (fold (index_word (length pre)) (new_Set (split_ws (searchText n))) idx)"
    by simp
  from Cons.IH [OF this] show ?case by simp
qed

lemma index_sound_buildSearchStructures:
  "index_sound (normalizedData s) (length (normalizedData s)) (searchIndex (buildSearchStructures s))"
  using index_sound_index_products [of "[]" "normalizedData s" "[]"]
  by (simp add: buildSearchStructures_def index_sound_def)

lemma buildSearchStructures_frame [simp]:
  "normalizedData (buildSearchStructures s) = normalizedData s"
  "products (buildSearchStructures s) = products s"
  "searchCache (buildSearchStructures s) = searchCache s"
  "arrays (buildSearchStructures s) = arrays s"
  "results (buildSearchStructures s) = results s"
  by (simp_all add: buildSearchStructures_def)

lemma init_index_sound:
  "init h raw = Inr s \<Longrightarrow> index_sound (normalizedData s) (length (normalizedData s)) (searchIndex s)"
  using index_sound_buildSearchStructures
  by (auto simp: init_def split: sum.splits)

text \<open>
  Claim C7.  After a catalog load, every token of the inverted index has at least two
  code units and every position in its set is below the length of the catalog
  (\<open>normalizedData\<close>).
\<close>

theorem index_tokens_and_positions:
  assumes "init h raw = Inr s"
  shows "\<forall>(word, ps) \<in> set (searchIndex s).
           2 \<le> length word \<and> (\<forall>p \<in> set ps. p < length (normalizedData s))"
  using init_index_sound [OF assms] unfolding index_sound_def by fastforce

section \<open>The loaded catalog\<close>

lemma processProducts_loop_frame:
  assumes "processProducts_loop h i ps s = Inr s'"
  shows "searchCache s' = searchCache s \<and> arrays s' = arrays s \<and> results s' = results s \<and>
         searchIndex s' = searchIndex s \<and> searchTerm s' = searchTerm s \<and>
         currentRubro s' = currentRubro s \<and> isLoading s' = isLoading s"
  using assms
  by (induction ps arbitrary: i s) (auto split: sum.splits option.splits)

lemma processProducts_loop_parallel:
  assumes "processProducts_loop h i ps s = Inr s'" "products s = map product_of (normalizedData s)"
  shows "products s' = map product_of (normalizedData s')"
  using assms
  by (induction ps arbitrary: i s) (auto split: sum.splits option.splits)

lemma init_state:
  assumes "init h raw = Inr s0"
  shows "searchCache s0 = []" "arrays s0 = [[]]" "results s0 = 0" "catalog_ok s0"
proof -
  obtain s1 where p: "processProducts h raw constructor = Inr s1" and s0: "s0 = buildSearchStructures s1"
    using assms by (auto simp: init_def split: sum.splits)
  note f = processProducts_loop_frame [OF p [unfolded processProducts_def]]
  show "searchCache s0 = []" "arrays s0 = [[]]" "results s0 = 0"
    using f by (simp_all add: s0 constructor_def)
  have "products s1 = map product_of (normalizedData s1)"
    using processProducts_loop_parallel [OF p [unfolded processProducts_def]] by simp
  then show "catalog_ok s0"
    by (simp add: catalog_ok_def s0 index_sound_buildSearchStructures)
qed

lemma performSearch_catalog:
  assumes "performSearch cfg h s = Inr s'"
  shows "products s' = products s \<and> normalizedData s' = normalizedData s \<and> searchIndex s' = searchIndex s"
  using assms by (auto simp: performSearch_def Let_def split: option.splits sum.splits)

lemma reachable_catalog:
  assumes "reachable cfg h s0 s"
  shows "products s = products s0 \<and> normalizedData s = normalizedData s0 \<and> searchIndex s = searchIndex s0"
  using assms
proof (induction rule: reachable.induct)
  case (performed s s')
  then show ?case using performSearch_catalog by metis
qed (simp_all add: sortChange_def)

lemma catalog_ok_reachable:
  "catalog_ok s0 \<Longrightarrow> reachable cfg h s0 s \<Longrightarrow> catalog_ok s"
  using reachable_catalog [of cfg h s0 s] by (simp add: catalog_ok_def)

text \<open>The positions that survive the intersection.\<close>

lemma intersect_words_Some:
  "0 < i \<Longrightarrow> \<exists>ps'. intersect_words s ws i (Some ps) = Some ps' \<and>
     set ps' = {p \<in> set ps. \<forall>word \<in> set ws. p \<in> set (index_get s word)}"
proof (induction ws arbitrary: i ps)
  case Nil
  then show ?case by simp
next
  case (Cons w ws)
  let ?ps = "new_Set (filter (\<lambda>idx. idx \<in> set (index_get s w)) ps)"
  obtain ps' where "intersect_words s ws (Suc i) (Some ?ps) = Some ps'"
    and "set ps' = {p \<in> set ?ps. \<forall>word \<in> set ws. p \<in> set (index_get s word)}"
    using Cons.IH [of "Suc i" ?ps] by auto
  then show ?case using Cons.prems by auto
qed

lemma intersect_words_start:
  "ws \<noteq> [] \<Longrightarrow> \<exists>ps. intersect_words s ws 0 None = Some ps \<and>
     set ps = {p. \<forall>word \<in> set ws. p \<in> set (index_get s word)}"
proof (cases ws)
  case Nil
  then show "ws \<noteq> [] \<Longrightarrow> ?thesis" by simp
next
  case (Cons w ws')
  obtain ps where "intersect_words s ws' (Suc 0) (Some (new_Set (index_get s w))) = Some ps"
    and "set ps = {p \<in> set (new_Set (index_get s w)). \<forall>word \<in> set ws'. p \<in> set (index_get s word)}"
    using intersect_words_Some [of "Suc 0" s ws' "new_Set (index_get s w)"] by auto
  then show ?thesis using Cons by auto
qed

lemma index_get_sound:
  assumes "catalog_ok s" "p \<in> set (index_get s word)"
  shows "p < length (normalizedData s) \<and> word \<in> set (split_ws (searchText (normalizedData s ! p)))"
proof -
  obtain ps where "map_of (searchIndex s) word = Some ps" "p \<in> set ps"
    using assms(2) by (cases "map_of (searchIndex s) word") (auto simp: index_get_def)
  then have "(word, ps) \<in> set (searchIndex s)" by (simp add: map_of_SomeD)
  then show ?thesis
    using assms(1) \<open>p \<in> set ps\<close> unfolding catalog_ok_def index_sound_def by fastforce
qed

lemma candidates_ok:
  assumes "\<forall>p \<in> set ps. p < length (products s) \<and> p < length (normalizedData s)"
  shows "candidates s ps = Inr (map (\<lambda>p. \<lparr> product = products s ! p, normalized = normalizedData s ! p, position = p \<rparr>) ps)"
  using assms by (induction ps) (simp_all add: candidate_def)

section \<open>The query cache\<close>

lemma searchCache_cacheSearchResults:
  "searchCache (cacheSearchResults cfg k s) = map_set k (length (arrays s)) (evict cfg (searchCache s))"
  by (simp add: cacheSearchResults_def evict_def Let_def)

lemma map_set_fresh: "k \<notin> fst ` set m \<Longrightarrow> map_set k v m = m @ [(k, v)]"
  by (induction m) auto

lemma map_delete_hd: "distinct (map fst (e # m)) \<Longrightarrow> map_delete (fst e) (e # m) = m"
  by (auto simp: map_delete_def filter_id_conv rev_image_eqI)

lemma evict_distinct:
  "distinct (map fst m) \<Longrightarrow> evict cfg m = (if CACHE_SIZE cfg \<le> length m then tl m else m)"
  by (cases m) (simp_all add: evict_def map_delete_hd del: map_delete_def)

lemma performSearch_hit:
  "map_of (searchCache s) (getCacheKey s) = Some a \<Longrightarrow>
   performSearch cfg h s = Inr (renderResults cfg (s\<lparr> results := a \<rparr>))"
  by (simp add: performSearch_def)

lemma performSearch_cache:
  assumes "performSearch cfg h s = Inr s'"
  shows "searchCache s' =
     (if getCacheKey s \<in> fst ` set (searchCache s) then searchCache s
      else map_set (getCacheKey s) (Suc (length (arrays s))) (evict cfg (searchCache s)))"
proof (cases "map_of (searchCache s) (getCacheKey s)")
  case None
  then have "getCacheKey s \<notin> fst ` set (searchCache s)" by (simp add: map_of_eq_None_iff)
  then show ?thesis
    using assms None
    by (auto simp: performSearch_def Let_def searchCache_cacheSearchResults split: sum.splits)
next
  case (Some a)
  then have "getCacheKey s \<in> fst ` set (searchCache s)"
    using map_of_SomeD [OF Some] by force
  then show ?thesis
    using assms Some by (auto simp: performSearch_def)
qed

lemma search_cache:
  assumes "search cfg h q c s = Inr s'"
  shows "searchCache s' =
     (if cache_key (q, c) \<in> fst ` set (searchCache s) then searchCache s
      else map_set (cache_key (q, c)) (Suc (length (arrays s))) (evict cfg (searchCache s)))"
  using performSearch_cache [OF assms [unfolded search_def]]
  by (simp add: getCacheKey_def cache_key_def)

lemma set_map_delete: "set (map_delete k m) \<subseteq> set m"
  by (auto simp: map_delete_def)

lemma length_map_set: "length (map_set k v m) \<le> Suc (length m)"
  by (induction m) auto

lemma length_evict: "0 < CACHE_SIZE cfg \<Longrightarrow> distinct (map fst m) \<Longrightarrow> length m \<le> CACHE_SIZE cfg \<Longrightarrow>
   Suc (length (evict cfg m)) \<le> CACHE_SIZE cfg"
  by (cases m) (auto simp: evict_distinct)

lemma distinct_evict: "distinct (map fst m) \<Longrightarrow> distinct (map fst (evict cfg m))"
  by (cases m) (auto simp: evict_distinct distinct_tl map_tl)

lemma map_set_keys: "fst ` set (map_set k v m) = insert k (fst ` set m)"
  by (induction m) auto

lemma distinct_map_set: "distinct (map fst m) \<Longrightarrow> distinct (map fst (map_set k v m))"
  by (induction m) (auto simp: map_set_keys)

lemma cache_ok_performSearch:
  assumes "0 < CACHE_SIZE cfg" "cache_ok cfg s" "performSearch cfg h s = Inr s'"
  shows "cache_ok cfg s'"
proof (cases "getCacheKey s \<in> fst ` set (searchCache s)")
  case True
  then show ?thesis using assms performSearch_cache [OF assms(3)] by (simp add: cache_ok_def)
next
  case False
  let ?m = "evict cfg (searchCache s)"
  have eq: "searchCache s' = map_set (getCacheKey s) (Suc (length (arrays s))) ?m"
    using False performSearch_cache [OF assms(3)] by simp
  have "distinct (map fst (searchCache s'))"
    unfolding eq using assms(2) by (simp add: cache_ok_def distinct_map_set distinct_evict)
  moreover have "length (searchCache s') \<le> Suc (length ?m)"
    unfolding eq by (rule length_map_set)
  moreover have "Suc (length ?m) \<le> CACHE_SIZE cfg"
    using assms(1,2) by (simp add: cache_ok_def length_evict)
  ultimately show ?thesis by (simp add: cache_ok_def)
qed

lemma cache_ok_reachable:
  assumes "0 < CACHE_SIZE cfg" "cache_ok cfg s0" "reachable cfg h s0 s"
  shows "cache_ok cfg s"
  using assms(3)
proof (induction rule: reachable.induct)
  case loaded
  then show ?case by (rule assms(2))
next
  case (performed s s')
  then show ?case using cache_ok_performSearch [OF assms(1)] by blast
qed (simp_all add: cache_ok_def sortChange_def)

section \<open>Searches that miss and searches that hit\<close>

lemma set_sort_insert [simp]: "set (sort_insert cmp x xs) = insert x (set xs)"
  by (induction xs) auto

lemma set_array_sort [simp]: "set (array_sort cmp xs) = set xs"
  by (induction xs) (simp_all add: array_sort_def)

lemma length_sort_insert [simp]: "length (sort_insert cmp x xs) = Suc (length xs)"
  by (induction xs) auto

lemma length_array_sort [simp]: "length (array_sort cmp xs) = length xs"
  by (induction xs) (simp_all add: array_sort_def)

lemma array_sort_Nil [simp]: "array_sort cmp [] = []"
  by (simp add: array_sort_def)

lemma set_ranked: "set (ranked cfg xs) \<subseteq> {r \<in> set xs. MIN_SCORE cfg \<le> score r}"
  using set_take_subset [of "MAX_RESULTS cfg"] by (fastforce simp: ranked_def)

lemma length_ranked: "length (ranked cfg xs) \<le> MAX_RESULTS cfg"
  by (simp add: ranked_def)

lemma findRelevantProducts_ok:
  assumes "catalog_ok s"
  shows "\<exists>ps. findRelevantProducts h s = Inr (map (item_at s) ps) \<and>
           (\<forall>p \<in> set ps. p < length (normalizedData s) \<and>
              (\<forall>word \<in> set (searchWords h (searchTerm s)).
                  word \<in> set (split_ws (searchText (normalizedData s ! p)))))"
proof (cases "searchTerm s = [] \<or> searchWords h (searchTerm s) = []")
  case True
  then have "findRelevantProducts h s = Inr (map (item_at s) [])"
    by (auto simp: findRelevantProducts_def)
  then show ?thesis by fastforce
next
  case False
  then obtain ps where ps: "intersect_words s (searchWords h (searchTerm s)) 0 None = Some ps"
    and set_ps: "set ps = {p. \<forall>word \<in> set (searchWords h (searchTerm s)). p \<in> set (index_get s word)}"
    using intersect_words_start [of "searchWords h (searchTerm s)" s] by auto
  from False obtain w where w: "w \<in> set (searchWords h (searchTerm s))"
    by (cases "searchWords h (searchTerm s)") auto
  have sound: "p < length (normalizedData s) \<and>
      (\<forall>word \<in> set (searchWords h (searchTerm s)).
          word \<in> set (split_ws (searchText (normalizedData s ! p))))" if "p \<in> set ps" for p
    using that set_ps w index_get_sound [OF assms] by blast
  then have "\<forall>p \<in> set ps. p < length (products s) \<and> p < length (normalizedData s)"
    using assms by (simp add: catalog_ok_def)
  then have "candidates s ps = Inr (map (item_at s) ps)"
    using candidates_ok [of ps s] by (simp add: item_at_def [abs_def])
  then have "findRelevantProducts h s = Inr (map (item_at s) ps)"
    using False ps by (cases "ps = []") (auto simp: findRelevantProducts_def)
  then show ?thesis using sound by blast
qed

lemma performSearch_miss:
  assumes "map_of (searchCache s) (getCacheKey s) = None"
    and "findRelevantProducts h s = Inr its"
  shows "performSearch cfg h s =
    Inr (renderResults cfg (cacheSearchResults cfg (getCacheKey s)
      (s\<lparr> results := length (arrays s),
           arrays := arrays s @ [ranked cfg (calculateProductScores cfg h s its)] \<rparr>)))"
  using assms by (simp add: performSearch_def ranked_def Let_def)

lemma performSearch_total:
  assumes "catalog_ok s"
  shows "\<exists>s'. performSearch cfg h s = Inr s'"
proof (cases "map_of (searchCache s) (getCacheKey s)")
  case None
  obtain its where "findRelevantProducts h s = Inr its"
    using findRelevantProducts_ok [OF assms] by blast
  then show ?thesis using performSearch_miss [OF None] by blast
next
  case (Some a)
  then show ?thesis by (simp add: performSearch_hit)
qed

lemma current_results_miss:
  assumes "map_of (searchCache s) (getCacheKey s) = None"
    and "findRelevantProducts h s = Inr its"
    and "performSearch cfg h s = Inr s'"
  shows "current_results s' = ranked cfg (calculateProductScores cfg h s its)"
    and "arrays s' = arrays s @ [ranked cfg (calculateProductScores cfg h s its),
                                 ranked cfg (calculateProductScores cfg h s its)]"
    and "results s' = length (arrays s)"
  using assms(3) unfolding performSearch_miss [OF assms(1,2)]
  by (auto simp: current_results_def array_at_def nth_append)

lemma current_results_hit:
  assumes "map_of (searchCache s) (getCacheKey s) = Some a"
    and "performSearch cfg h s = Inr s'"
  shows "current_results s' = array_at s a" "arrays s' = arrays s" "results s' = a"
        "searchCache s' = searchCache s"
  using assms(2) unfolding performSearch_hit [OF assms(1)]
  by (auto simp: current_results_def array_at_def)

section \<open>Searching twice\<close>

lemma map_of_map_set [simp]: "map_of (map_set k v m) k = Some v"
  by (induction m) auto

lemma search_key [simp]:
  "getCacheKey (s\<lparr> searchTerm := q, currentRubro := c \<rparr>) = cache_key (q, c)"
  by (simp add: getCacheKey_def cache_key_def)

lemma performSearch_term_rubro:
  assumes "performSearch cfg h s = Inr s'"
  shows "searchTerm s' = searchTerm s" "currentRubro s' = currentRubro s"
  using assms by (auto simp: performSearch_def Let_def split: option.splits sum.splits)

lemma performSearch_again:
  assumes "performSearch cfg h s = Inr s1"
  shows "\<exists>s2. performSearch cfg h s1 = Inr s2 \<and> current_results s2 = current_results s1"
proof -
  have key: "getCacheKey s1 = getCacheKey s"
    using performSearch_term_rubro [OF assms] by (simp add: getCacheKey_def)
  show ?thesis
  proof (cases "map_of (searchCache s) (getCacheKey s)")
    case (Some a)
    note hit = current_results_hit [OF Some assms]
    have "map_of (searchCache s1) (getCacheKey s1) = Some a"
      using Some hit(4) key by simp
    then have "performSearch cfg h s1 = Inr (renderResults cfg (s1\<lparr> results := a \<rparr>))"
      by (rule performSearch_hit)
    moreover have "current_results (renderResults cfg (s1\<lparr> results := a \<rparr>)) = current_results s1"
      using hit by (simp add: current_results_def array_at_def)
    ultimately show ?thesis by blast
  next
    case None
    then obtain its where its: "findRelevantProducts h s = Inr its"
      using assms by (auto simp: performSearch_def split: sum.splits)
    note miss = current_results_miss [OF None its assms]
    let ?rs = "ranked cfg (calculateProductScores cfg h s its)"
    have "searchCache s1 = map_set (getCacheKey s) (Suc (length (arrays s))) (evict cfg (searchCache s))"
      using performSearch_cache [OF assms] None by (simp add: map_of_eq_None_iff)
    then have "map_of (searchCache s1) (getCacheKey s1) = Some (Suc (length (arrays s)))"
      using key by simp
    then have "performSearch cfg h s1 =
        Inr (renderResults cfg (s1\<lparr> results := Suc (length (arrays s)) \<rparr>))"
      by (rule performSearch_hit)
    moreover have "current_results (renderResults cfg (s1\<lparr> results := Suc (length (arrays s)) \<rparr>)) =
        current_results s1"
      using miss by (simp add: current_results_def array_at_def nth_append)
    ultimately show ?thesis by blast
  qed
qed

lemma search_total:
  assumes "catalog_ok s"
  shows "\<exists>s'. search cfg h q c s = Inr s'"
  unfolding search_def by (rule performSearch_total) (use assms in \<open>simp add: catalog_ok_def\<close>)

lemma reachable_search:
  assumes "reachable cfg h s0 s" "search cfg h q c s = Inr s'"
  shows "reachable cfg h s0 s'"
proof -
  have "reachable cfg h s0 (s\<lparr> searchTerm := q \<rparr>)" using assms(1) by (rule reachable.input)
  then have "reachable cfg h s0 (s\<lparr> searchTerm := q, currentRubro := c \<rparr>)"
    by (rule reachable.rubroFilter)
  then show ?thesis using assms(2) unfolding search_def by (rule reachable.performed)
qed

text \<open>
  Claim C8.  In every state of a loaded engine, for every query text and category, a
  search returns, the same search made again at once returns as well, and the second
  result list (served from the cache) equals the first, element by element and in order.
\<close>

theorem search_twice:
  assumes "init h raw = Inr s0" and "reachable cfg h s0 s"
  shows "\<exists>s1 s2. search cfg h q c s = Inr s1 \<and> search cfg h q c s1 = Inr s2 \<and>
           current_results s2 = current_results s1"
proof -
  have "catalog_ok s"
    using init_state(4) [OF assms(1)] assms(2) by (rule catalog_ok_reachable)
  then obtain s1 where s1: "search cfg h q c s = Inr s1"
    using search_total by blast
  then have p: "performSearch cfg h (s\<lparr> searchTerm := q, currentRubro := c \<rparr>) = Inr s1"
    by (simp add: search_def)
  obtain s2 where s2: "performSearch cfg h s1 = Inr s2" "current_results s2 = current_results s1"
    using performSearch_again [OF p] by blast
  have "s1\<lparr> searchTerm := q, currentRubro := c \<rparr> = s1"
    using performSearch_term_rubro [OF p] by simp
  then have "search cfg h q c s1 = Inr s2"
    using s2(1) by (simp add: search_def)
  then show ?thesis using s1 s2(2) by blast
qed

section \<open>The bound of the cache and its eviction order\<close>

lemma search_catalog_ok:
  assumes "catalog_ok s" "search cfg h q c s = Inr s'"
  shows "catalog_ok s'"
  using assms performSearch_catalog [OF assms(2) [unfolded search_def]]
  by (simp add: catalog_ok_def)

lemma searches_total:
  "catalog_ok s \<Longrightarrow> \<exists>s'. searches cfg h qs s = Inr s'"
proof (induction qs arbitrary: s)
  case Nil
  then show ?case by simp
next
  case (Cons q qs)
  obtain s1 where s1: "search cfg h (fst q) (snd q) s = Inr s1"
    using search_total [OF Cons.prems] by blast
  then have "catalog_ok s1" using Cons.prems search_catalog_ok by blast
  then show ?case using Cons.IH s1 by simp
qed

lemma set_evict: "set (evict cfg m) \<subseteq> set m"
  unfolding evict_def map_delete_def by (auto split: list.splits)

lemma evict_keys_subset: "fst ` set (evict cfg m) \<subseteq> fst ` set m"
  using set_evict [of cfg m] by blast

lemma search_new_key:
  assumes "0 < CACHE_SIZE cfg" "cache_ok cfg s" "search cfg h q c s = Inr s'"
    and "cache_key (q, c) \<notin> fst ` set (searchCache s)"
  shows "map fst (searchCache s') =
           drop (Suc (length (searchCache s)) - CACHE_SIZE cfg)
                (map fst (searchCache s) @ [cache_key (q, c)])"
proof -
  let ?m = "searchCache s" and ?k = "cache_key (q, c)"
  have d: "distinct (map fst ?m)" and le: "length ?m \<le> CACHE_SIZE cfg"
    using assms(2) by (simp_all add: cache_ok_def)
  have "fst ` set (evict cfg ?m) \<subseteq> fst ` set ?m"
    by (rule evict_keys_subset)
  then have nk: "?k \<notin> fst ` set (evict cfg ?m)"
    using assms(4) by (rule contra_subsetD)
  have "searchCache s' = map_set ?k (Suc (length (arrays s))) (evict cfg ?m)"
    unfolding search_cache [OF assms(3)] using assms(4) by simp
  then have eq: "searchCache s' = evict cfg ?m @ [(?k, Suc (length (arrays s)))]"
    by (simp only: map_set_fresh [OF nk])
  show ?thesis
  proof (cases "CACHE_SIZE cfg \<le> length ?m")
    case True
    then have len: "length ?m = CACHE_SIZE cfg" using le by simp
    then obtain e m' where m: "?m = e # m'"
      using assms(1) by (cases ?m) auto
    have one: "Suc (length ?m) - CACHE_SIZE cfg = Suc 0"
      using len by arith
    have "evict cfg ?m = tl ?m"
      using True by (simp add: evict_distinct [OF d])
    then have "evict cfg ?m = m'"
      by (simp add: m)
    then have "map fst (searchCache s') = map fst m' @ [?k]"
      by (simp add: eq)
    also have "\<dots> = drop (Suc 0) (map fst ?m @ [?k])"
      by (simp add: m)
    finally show ?thesis
      by (simp only: one)
  next
    case False
    then have "Suc (length ?m) - CACHE_SIZE cfg = 0" by arith
    moreover have "evict cfg ?m = ?m"
      using False by (simp add: evict_distinct [OF d])
    ultimately show ?thesis by (simp add: eq)
  qed
qed

lemma cache_ok_search:
  assumes "0 < CACHE_SIZE cfg" "cache_ok cfg s" "search cfg h q c s = Inr s'"
  shows "cache_ok cfg s'"
proof -
  have "cache_ok cfg (s\<lparr> searchTerm := q, currentRubro := c \<rparr>)"
    using assms(2) by (simp add: cache_ok_def)
  then show ?thesis
    using cache_ok_performSearch [OF assms(1) _ assms(3) [unfolded search_def]] by blast
qed

lemma searches_new_keys:
  assumes "0 < CACHE_SIZE cfg"
  shows "cache_ok cfg s \<Longrightarrow> searches cfg h qs s = Inr s' \<Longrightarrow>
         distinct (map fst (searchCache s) @ map cache_key qs) \<Longrightarrow>
         cache_ok cfg s' \<and>
         map fst (searchCache s') =
           drop (length (searchCache s) + length qs - CACHE_SIZE cfg)
                (map fst (searchCache s) @ map cache_key qs)"
proof (induction qs arbitrary: s)
  case Nil
  then show ?case by (simp add: cache_ok_def)
next
  case (Cons q qs)
  obtain s1 where s1: "search cfg h (fst q) (snd q) s = Inr s1" and rest: "searches cfg h qs s1 = Inr s'"
    using Cons.prems(2) by (auto split: sum.splits)
  have fresh: "cache_key (fst q, snd q) \<notin> fst ` set (searchCache s)"
    using Cons.prems(3) by auto
  have ok1: "cache_ok cfg s1"
    using cache_ok_search [OF assms Cons.prems(1) s1] .
  let ?K = "map fst (searchCache s)"
  let ?ks = "map cache_key qs"
  have le: "length ?K \<le> CACHE_SIZE cfg"
    using Cons.prems(1) by (simp add: cache_ok_def)
  have keys1: "map fst (searchCache s1) = drop (Suc (length ?K) - CACHE_SIZE cfg) (?K @ [cache_key q])"
    using search_new_key [OF assms Cons.prems(1) s1 fresh] by simp
  show ?case
  proof (cases "length ?K < CACHE_SIZE cfg")
    case True
    then have k1: "map fst (searchCache s1) = ?K @ [cache_key q]"
      using keys1 by simp
    have "length (map fst (searchCache s1)) = length (?K @ [cache_key q])"
      by (simp only: k1)
    then have l1: "length (searchCache s1) = Suc (length ?K)"
      by simp
    have d1: "distinct (map fst (searchCache s1) @ ?ks)"
      using Cons.prems(3) by (simp add: k1)
    from Cons.IH [OF ok1 rest d1] show ?thesis
      using l1 by (simp add: k1)
  next
    case False
    then have full: "length ?K = CACHE_SIZE cfg" using le by simp
    then obtain k0 K' where K: "?K = k0 # K'"
      using assms by (cases ?K) auto
    have k1: "map fst (searchCache s1) = K' @ [cache_key q]"
      using keys1 full by (simp add: K)
    have "length (map fst (searchCache s1)) = length (K' @ [cache_key q])"
      by (simp only: k1)
    moreover have "length ?K = Suc (length K')"
      by (simp only: K length_Cons)
    ultimately have l1: "length (searchCache s1) = CACHE_SIZE cfg"
      using full by simp
    have d1: "distinct (map fst (searchCache s1) @ ?ks)"
      using Cons.prems(3) by (simp add: k1 K)
    have n: "length (searchCache s) = CACHE_SIZE cfg" using full by simp
    from Cons.IH [OF ok1 rest d1] show ?thesis
      by (simp add: k1 l1 n K)
  qed
qed

lemma drop_keeps_not_head:
  assumes "distinct xs" "0 < n" "xs \<noteq> []"
  shows "hd xs \<notin> set (drop n xs)"
proof -
  obtain x xs' where xs: "xs = x # xs'" using assms(3) by (cases xs) auto
  obtain n' where n: "n = Suc n'" using assms(2) by (cases n) auto
  have "set (drop n' xs') \<subseteq> set xs'" by (rule set_drop_subset)
  then show ?thesis using assms(1) by (auto simp: xs n)
qed

text \<open>
  Claim C6.  With a capacity of at least one entry (\<open>CACHE_SIZE\<close> is 50), the query
  cache never holds more than \<open>CACHE_SIZE\<close> entries in any state of a loaded engine;
  and after searches for more than \<open>CACHE_SIZE\<close> pairs of query and category with
  pairwise distinct cache keys, made on a freshly loaded engine, the cache holds
  exactly the last \<open>CACHE_SIZE\<close> keys, so the key inserted first is gone.
\<close>

theorem cache_bound_and_eviction:
  assumes "init h raw = Inr s0" and "0 < CACHE_SIZE cfg"
  shows "(reachable cfg h s0 s \<longrightarrow> length (searchCache s) \<le> CACHE_SIZE cfg) \<and>
         (distinct (map cache_key qs) \<and> CACHE_SIZE cfg < length qs \<longrightarrow>
            (\<exists>s'. searches cfg h qs s0 = Inr s' \<and>
                  length (searchCache s') \<le> CACHE_SIZE cfg \<and>
                  map fst (searchCache s') = drop (length qs - CACHE_SIZE cfg) (map cache_key qs) \<and>
                  cache_key (hd qs) \<notin> fst ` set (searchCache s')))"
proof (intro conjI impI)
  have ok0: "cache_ok cfg s0"
    using init_state(1) [OF assms(1)] by (simp add: cache_ok_def)
  show "length (searchCache s) \<le> CACHE_SIZE cfg" if "reachable cfg h s0 s"
    using cache_ok_reachable [OF assms(2) ok0 that] by (simp add: cache_ok_def)
  assume a: "distinct (map cache_key qs) \<and> CACHE_SIZE cfg < length qs"
  obtain s' where s': "searches cfg h qs s0 = Inr s'"
    using searches_total [OF init_state(4) [OF assms(1)]] by blast
  have "distinct (map fst (searchCache s0) @ map cache_key qs)"
    using a init_state(1) [OF assms(1)] by simp
  from searches_new_keys [OF assms(2) ok0 s' this]
  have ok': "cache_ok cfg s'"
    and keys: "map fst (searchCache s') = drop (length qs - CACHE_SIZE cfg) (map cache_key qs)"
    using init_state(1) [OF assms(1)] by simp_all
  have ne: "map cache_key qs \<noteq> []" using a by auto
  have "hd (map cache_key qs) \<notin> set (drop (length qs - CACHE_SIZE cfg) (map cache_key qs))"
    using a by (intro drop_keeps_not_head ne) simp_all
  then have "cache_key (hd qs) \<notin> set (map fst (searchCache s'))"
    using ne by (simp add: keys hd_map)
  then have "cache_key (hd qs) \<notin> fst ` set (searchCache s')" by simp
  then show "\<exists>s'. searches cfg h qs s0 = Inr s' \<and>
                  length (searchCache s') \<le> CACHE_SIZE cfg \<and>
                  map fst (searchCache s') = drop (length qs - CACHE_SIZE cfg) (map cache_key qs) \<and>
                  cache_key (hd qs) \<notin> fst ` set (searchCache s')"
    using s' ok' keys by (auto simp: cache_ok_def)
qed

section \<open>Sorting and the shared result array\<close>

lemma sorted_sort_insert:
  assumes tr: "\<forall>a \<in> A. \<forall>b \<in> A. \<forall>c \<in> A. in_order cmp a b \<longrightarrow> in_order cmp b c \<longrightarrow> in_order cmp a c"
    and tot: "\<forall>a \<in> A. \<forall>b \<in> A. in_order cmp a b \<or> in_order cmp b a"
    and "x \<in> A" "set ys \<subseteq> A" "sorted_wrt (in_order cmp) ys"
  shows "sorted_wrt (in_order cmp) (sort_insert cmp x ys)"
  using assms(4,5)
proof (induction ys)
  case Nil
  then show ?case by simp
next
  case (Cons y ys)
  have yA: "y \<in> A" and ysA: "set ys \<subseteq> A" using Cons.prems(1) by simp_all
  have sorted_ys: "sorted_wrt (in_order cmp) ys" and y_first: "\<forall>z \<in> set ys. in_order cmp y z"
    using Cons.prems(2) by simp_all
  show ?case
  proof (cases "js_pos (cmp x y)")
    case True
    then have yx: "in_order cmp y x"
      using tot yA assms(3) by (auto simp: in_order_def)
    have "sorted_wrt (in_order cmp) (sort_insert cmp x ys)"
      using Cons.IH [OF ysA sorted_ys] .
    then show ?thesis
      using True yx y_first by simp
  next
    case False
    then have xy: "in_order cmp x y" by (simp add: in_order_def)
    have "in_order cmp x z" if "z \<in> set ys" for z
    proof -
      have "z \<in> A" "in_order cmp y z" using that ysA y_first by auto
      then show ?thesis using tr assms(3) yA xy by blast
    qed
    then show ?thesis
      using False xy Cons.prems(2) by simp
  qed
qed

lemma sorted_array_sort:
  assumes tr: "\<forall>a \<in> A. \<forall>b \<in> A. \<forall>c \<in> A. in_order cmp a b \<longrightarrow> in_order cmp b c \<longrightarrow> in_order cmp a c"
    and tot: "\<forall>a \<in> A. \<forall>b \<in> A. in_order cmp a b \<or> in_order cmp b a"
    and "set xs \<subseteq> A"
  shows "sorted_wrt (in_order cmp) (array_sort cmp xs)"
  using assms(3)
proof (induction xs)
  case Nil
  then show ?case by simp
next
  case (Cons x xs)
  have "x \<in> A" "set (array_sort cmp xs) \<subseteq> A" "sorted_wrt (in_order cmp) (array_sort cmp xs)"
    using Cons by simp_all
  then have "sorted_wrt (in_order cmp) (sort_insert cmp x (array_sort cmp xs))"
    by (rule sorted_sort_insert [OF tr tot])
  then show ?case by (simp add: array_sort_def)
qed

lemma sorted_by_score: "sorted_wrt (in_order by_score_desc) (array_sort by_score_desc xs)"
proof (rule sorted_array_sort [where A = UNIV])
  show "\<forall>a \<in> UNIV. \<forall>b \<in> UNIV. \<forall>c \<in> UNIV. in_order by_score_desc a b \<longrightarrow>
          in_order by_score_desc b c \<longrightarrow> in_order by_score_desc a c"
    by (simp add: in_order_def by_score_desc_def)
  show "\<forall>a \<in> UNIV. \<forall>b \<in> UNIV. in_order by_score_desc a b \<or> in_order by_score_desc b a"
    by (simp add: in_order_def by_score_desc_def)
qed simp

lemma price_order_trans:
  "u \<noteq> NaN \<Longrightarrow> v \<noteq> NaN \<Longrightarrow> w \<noteq> NaN \<Longrightarrow>
   \<not> js_pos (js_sub u v) \<Longrightarrow> \<not> js_pos (js_sub v w) \<Longrightarrow> \<not> js_pos (js_sub u w)"
  by (cases u; cases v; cases w) auto

lemma price_order_total:
  "u \<noteq> NaN \<Longrightarrow> v \<noteq> NaN \<Longrightarrow> \<not> js_pos (js_sub u v) \<or> \<not> js_pos (js_sub v u)"
  by (cases u; cases v) auto

lemma sorted_by_price:
  assumes "\<forall>r \<in> set xs. precio_venta (product r) \<noteq> NaN"
  shows "sorted_wrt (in_order by_price_asc) (array_sort by_price_asc xs)"
proof (rule sorted_array_sort [where A = "{r. precio_venta (product r) \<noteq> NaN}"])
  let ?A = "{r :: scored. precio_venta (product r) \<noteq> NaN}"
  show "set xs \<subseteq> ?A" using assms by auto
  show "\<forall>a \<in> ?A. \<forall>b \<in> ?A. \<forall>c \<in> ?A.
          in_order by_price_asc a b \<longrightarrow> in_order by_price_asc b c \<longrightarrow> in_order by_price_asc a c"
  proof (intro ballI impI)
    fix a b c :: scored
    assume "a \<in> ?A" "b \<in> ?A" "c \<in> ?A" "in_order by_price_asc a b" "in_order by_price_asc b c"
    then show "in_order by_price_asc a c"
      using price_order_trans [of "precio_venta (product a)" "precio_venta (product b)"
          "precio_venta (product c)"]
      by (simp add: in_order_def by_price_asc_def)
  qed
  show "\<forall>a \<in> ?A. \<forall>b \<in> ?A. in_order by_price_asc a b \<or> in_order by_price_asc b a"
  proof (intro ballI)
    fix a b :: scored
    assume "a \<in> ?A" "b \<in> ?A"
    then show "in_order by_price_asc a b \<or> in_order by_price_asc b a"
      using price_order_total [of "precio_venta (product a)" "precio_venta (product b)"]
      by (simp add: in_order_def by_price_asc_def)
  qed
qed

lemma sortResults_arrays:
  "arrays (sortResults sortType s) =
     (if array_at s (results s) = [] then arrays s
      else (arrays s)[results s := array_sort (comparator sortType) (array_at s (results s))])"
  by (simp add: sortResults_def comparator_def by_price_asc_def [abs_def] by_score_desc_def [abs_def])

lemma comparator_price_asc [simp]: "comparator (js ''price_asc'') = by_price_asc"
  by (simp add: comparator_def)

lemma array_at_sortResults:
  assumes "results s < length (arrays s)"
  shows "array_at (sortResults sortType s) (results s) =
           array_sort (comparator sortType) (array_at s (results s))"
  using assms by (auto simp: sortResults_arrays array_at_def)

lemma sortChange_frame [simp]:
  "results (sortChange cfg sortType s) = results s"
  "searchCache (sortChange cfg sortType s) = searchCache s"
  "searchTerm (sortChange cfg sortType s) = searchTerm s"
  "currentRubro (sortChange cfg sortType s) = currentRubro s"
  "arrays (sortChange cfg sortType s) = arrays (sortResults sortType s)"
  by (simp_all add: sortChange_def)

text \<open>
  Claim C10.  A search that hits the cache makes \<open>state.results\<close> the cached array
  itself.  A sort chosen afterwards therefore sorts the cached array in place: the
  entry of the cache then is the stored list as re-sorted by the chosen comparator, and
  the next hit on the same key returns that list; after a sort by ascending price (of
  prices that are numbers) it is in ascending price order.
\<close>

theorem hit_shares_cached_array:
  assumes "map_of (searchCache s) (getCacheKey s) = Some a" and "a < length (arrays s)"
    and "performSearch cfg h s = Inr s1"
  shows "results s1 = a \<and>
         map_of (searchCache (sortChange cfg sortType s1)) (getCacheKey (sortChange cfg sortType s1)) = Some a \<and>
         array_at (sortChange cfg sortType s1) a = array_sort (comparator sortType) (array_at s a) \<and>
         (\<exists>s3. performSearch cfg h (sortChange cfg sortType s1) = Inr s3 \<and>
               current_results s3 = array_sort (comparator sortType) (array_at s a) \<and>
               (sortType = js ''price_asc'' \<and> (\<forall>r \<in> set (array_at s a). precio_venta (product r) \<noteq> NaN)
                  \<longrightarrow> sorted_wrt (in_order by_price_asc) (current_results s3)))"
proof -
  let ?s2 = "sortChange cfg sortType s1"
  note hit = current_results_hit [OF assms(1,3)]
  have r1: "results s1 = a" by (rule hit(3))
  have key: "getCacheKey ?s2 = getCacheKey s"
    using performSearch_term_rubro [OF assms(3)] by (simp add: getCacheKey_def)
  have c2: "map_of (searchCache ?s2) (getCacheKey ?s2) = Some a"
    using assms(1) hit(4) key by simp
  have "results s1 < length (arrays s1)" using assms(2) hit by simp
  from array_at_sortResults [OF this, of sortType]
  have "array_at (sortResults sortType s1) a = array_sort (comparator sortType) (array_at s1 a)"
    by (simp add: r1)
  moreover have "array_at s1 a = array_at s a"
    using hit(2) by (simp add: array_at_def)
  moreover have "array_at ?s2 a = array_at (sortResults sortType s1) a"
    by (simp add: array_at_def)
  ultimately have a2: "array_at ?s2 a = array_sort (comparator sortType) (array_at s a)"
    by simp
  obtain s3 where s3: "performSearch cfg h ?s2 = Inr s3"
    using performSearch_hit [OF c2] by blast
  have cr3: "current_results s3 = array_sort (comparator sortType) (array_at s a)"
    using current_results_hit(1) [OF c2 s3] a2 by simp
  have "sorted_wrt (in_order by_price_asc) (current_results s3)"
    if "sortType = js ''price_asc''" "\<forall>r \<in> set (array_at s a). precio_venta (product r) \<noteq> NaN"
    using that sorted_by_price [of "array_at s a"] by (simp add: cr3)
  then show ?thesis
    using r1 c2 a2 s3 cr3 by blast
qed

section \<open>Words of a normalized text\<close>

lemma pieces_Nil [simp]: "pieces b acc [] = (if acc = [] then {} else {acc})"
  by (auto simp: pieces_def)

lemma pieces_ws [simp]:
  "is_ws c \<Longrightarrow> pieces b [] (c # s) = pieces True [] s"
  by (auto simp: pieces_def)

lemma pieces_ws_acc:
  "is_ws c \<Longrightarrow> pieces False acc (c # s) = pieces False acc [] \<union> pieces True [] s"
  by (auto simp: pieces_def)

lemma pieces_char [simp]:
  "\<not> is_ws c \<Longrightarrow> pieces b acc (c # s) = pieces False (acc @ [c]) s"
  by (simp add: pieces_def)

lemma pieces_flag: "pieces True [] s = pieces False [] s"
  by (cases s) (auto simp: pieces_def)

lemma pieces_append_ws:
  assumes "is_ws c" "b \<longrightarrow> acc = []"
  shows "pieces b acc (a @ c # s) = pieces b acc a \<union> pieces True [] s"
  using assms(2)
proof (induction a arbitrary: b acc)
  case Nil
  then show ?case
    using assms(1) by (cases b) (auto simp: pieces_ws_acc)
next
  case (Cons x a)
  show ?case
  proof (cases "is_ws x")
    case True
    show ?thesis
    proof (cases b)
      case True
      then have "acc = []" using Cons.prems by simp
      then show ?thesis using \<open>is_ws x\<close> Cons.IH [of True "[]"] by simp
    next
      case False
      then show ?thesis
        using \<open>is_ws x\<close> Cons.IH [of True "[]"] by (auto simp: pieces_ws_acc)
    qed
  next
    case False
    then show ?thesis using Cons.IH [of False "acc @ [x]"] by simp
  qed
qed

lemma tokens_pieces: "tokens s = pieces False [] s"
  by (simp add: tokens_def pieces_def split_ws_def)

lemma tokens_Nil [simp]: "tokens [] = {}"
  by (simp add: tokens_pieces)

lemma tokens_append_ws:
  "is_ws c \<Longrightarrow> tokens (a @ c # s) = tokens a \<union> tokens s"
  by (simp add: tokens_pieces pieces_append_ws pieces_flag)

lemma tokens_ws_Cons [simp]: "is_ws c \<Longrightarrow> tokens (c # s) = tokens s"
  using tokens_append_ws [of c "[]" s] by simp

lemma tokens_ws_prefix: "list_all is_ws l \<Longrightarrow> tokens (l @ s) = tokens s"
  by (induction l) simp_all

lemma tokens_all_ws: "list_all is_ws l \<Longrightarrow> tokens l = {}"
  using tokens_ws_prefix [of l "[]"] by simp

lemma tokens_ws_suffix: "list_all is_ws r \<Longrightarrow> tokens (s @ r) = tokens s"
proof (cases r)
  case Nil
  then show ?thesis by simp
next
  case (Cons c r')
  assume "list_all is_ws r"
  then have "is_ws c" "list_all is_ws r'" using Cons by simp_all
  then show ?thesis
    using tokens_append_ws [of c s r'] tokens_all_ws [of r'] Cons by simp
qed

lemma trim_decompose:
  "\<exists>l r. s = l @ trim s @ r \<and> list_all is_ws l \<and> list_all is_ws r"
proof -
  let ?l = "takeWhile is_ws s" and ?d = "dropWhile is_ws s"
  let ?r = "rev (takeWhile is_ws (rev ?d))"
  have "rev ?d = takeWhile is_ws (rev ?d) @ dropWhile is_ws (rev ?d)" by simp
  then have "?d = rev (dropWhile is_ws (rev ?d)) @ ?r"
    by (metis rev_append rev_rev_ident)
  then have "s = ?l @ trim s @ ?r"
    by (metis takeWhile_dropWhile_id trim_def)
  moreover have "list_all is_ws ?l"
    by (simp add: list_all_iff) (meson set_takeWhileD)
  moreover have "list_all is_ws ?r"
    by (simp add: list_all_iff) (meson set_takeWhileD)
  ultimately show ?thesis by blast
qed

lemma tokens_trim [simp]: "tokens (trim s) = tokens s"
proof -
  obtain l r where "s = l @ trim s @ r" "list_all is_ws l" "list_all is_ws r"
    using trim_decompose by blast
  then show ?thesis
    by (metis tokens_ws_prefix tokens_ws_suffix)
qed

lemma pieces_unify_spaces:
  "b \<longrightarrow> acc = [] \<Longrightarrow> pieces b acc (unify_spaces b s) = pieces b acc s"
proof (induction s arbitrary: b acc)
  case Nil
  then show ?case by simp
next
  case (Cons c s)
  show ?case
  proof (cases "is_ws c")
    case False
    then show ?thesis using Cons.IH [of False "acc @ [c]"] by simp
  next
    case True
    have sp: "is_ws 32" by (simp add: is_ws_def)
    show ?thesis
    proof (cases b)
      case True
      then have "acc = []" using Cons.prems by simp
      then show ?thesis using \<open>is_ws c\<close> True Cons.IH [of True "[]"] by simp
    next
      case False
      then show ?thesis
        using \<open>is_ws c\<close> sp Cons.IH [of True "[]"] by (simp add: pieces_ws_acc)
    qed
  qed
qed

lemma tokens_unify_spaces [simp]: "tokens (unify_spaces False s) = tokens s"
  by (simp add: tokens_pieces pieces_unify_spaces)

lemma normalizeText_append [simp]:
  "normalizeText h (a @ b) = normalizeText h a @ normalizeText h b"
  by (simp add: normalizeText_def)

lemma normalizeText_Cons:
  "normalizeText h (c # b) = normalizeText h [c] @ normalizeText h b"
  by (simp add: normalizeText_def)

lemma replace_symbols_append [simp]:
  "replace_symbols (a @ b) = replace_symbols a @ replace_symbols b"
  by (simp add: replace_symbols_def)

lemma words_of_flat: "words_of h x = tokens (replace_symbols (normalizeText h x))"
  by (simp add: words_of_def normalizeSearchText_def)

lemma flat_separator:
  "c = 45 \<or> c = 32 \<Longrightarrow> replace_symbols (normalizeText h [c]) = [32]"
  by (auto simp: normalizeText_def lower_nfd_def is_combining_def replace_symbols_def
      is_az09_def is_ws_def)

lemma words_of_separated:
  assumes "c = 45 \<or> c = 32"
  shows "words_of h (a @ c # b) = words_of h a \<union> words_of h b"
proof -
  have "replace_symbols (normalizeText h (a @ c # b)) =
        replace_symbols (normalizeText h a) @ 32 # replace_symbols (normalizeText h b)"
    using flat_separator [OF assms, of h] normalizeText_Cons [of h c b] by simp
  moreover have "is_ws 32" by (simp add: is_ws_def)
  ultimately show ?thesis
    by (simp add: words_of_flat tokens_append_ws)
qed

lemma flat_ws_unit:
  "is_ws c \<Longrightarrow> list_all is_ws (replace_symbols (normalizeText h [c]))"
  by (auto simp: normalizeText_def lower_nfd_def is_combining_def replace_symbols_def
      is_az09_def is_ws_def)

lemma flat_ws:
  "list_all is_ws l \<Longrightarrow> list_all is_ws (replace_symbols (normalizeText h l))"
proof (induction l)
  case Nil
  then show ?case by (simp add: normalizeText_def replace_symbols_def)
next
  case (Cons c l)
  have "replace_symbols (normalizeText h (c # l)) =
        replace_symbols (normalizeText h [c]) @ replace_symbols (normalizeText h l)"
    using normalizeText_Cons [of h c l] by simp
  then show ?case
    using Cons flat_ws_unit [of c h] by simp
qed

lemma words_of_trim [simp]: "words_of h (trim x) = words_of h x"
proof -
  obtain l r where x: "x = l @ trim x @ r" and l: "list_all is_ws l" and r: "list_all is_ws r"
    using trim_decompose by blast
  have "replace_symbols (normalizeText h x) =
        replace_symbols (normalizeText h l) @ replace_symbols (normalizeText h (trim x)) @
        replace_symbols (normalizeText h r)"
    using arg_cong [OF x, of "\<lambda>y. replace_symbols (normalizeText h y)"] by simp
  then show ?thesis
    using flat_ws [OF l, of h] flat_ws [OF r, of h]
    by (simp add: words_of_flat tokens_ws_prefix tokens_ws_suffix)
qed

lemma set_searchWords: "set (searchWords h t) = {w \<in> words_of h t. 2 \<le> length w}"
  by (auto simp: searchWords_def words_of_def tokens_def)

lemma tokens_member: "w \<in> tokens s \<Longrightarrow> w \<in> set (split_ws s)"
  by (simp add: tokens_def)

section \<open>What the cache holds\<close>

lemma score_item_fields [simp]:
  "normalized (score_item cfg h s it) = normalized it"
  "product (score_item cfg h s it) = product it"
  "position (score_item cfg h s it) = position it"
  by (simp_all add: score_item_def Let_def)

lemma score_item_veto:
  "currentRubro s \<noteq> [] \<Longrightarrow> rubro (product it) \<noteq> currentRubro s \<Longrightarrow>
   score (score_item cfg h s it) = 0"
  by (simp add: score_item_def Let_def)

lemma item_at_fields [simp]:
  "normalized (item_at s p) = normalizedData s ! p"
  "product (item_at s p) = products s ! p"
  "position (item_at s p) = p"
  by (simp_all add: item_at_def)

lemma set_calculateProductScores:
  "set (calculateProductScores cfg h s its) \<subseteq> score_item cfg h s ` set its"
  by (auto simp: calculateProductScores_def)

lemma miss_answers:
  assumes "catalog_ok s" "normalizedData s = normalizedData s0"
    and "findRelevantProducts h s = Inr its"
  shows "set (ranked cfg (calculateProductScores cfg h s its)) \<subseteq>
           answers cfg h s0 (searchTerm s) (currentRubro s)"
proof
  fix res
  assume "res \<in> set (ranked cfg (calculateProductScores cfg h s its))"
  then have in_scores: "res \<in> set (calculateProductScores cfg h s its)"
    and thr: "MIN_SCORE cfg \<le> score res"
    using set_ranked by blast+
  obtain ps where its: "its = map (item_at s) ps"
    and sound: "\<forall>p \<in> set ps. p < length (normalizedData s) \<and>
              (\<forall>word \<in> set (searchWords h (searchTerm s)).
                  word \<in> set (split_ws (searchText (normalizedData s ! p))))"
    using findRelevantProducts_ok [OF assms(1), of h] assms(3) by auto
  obtain p where p: "p \<in> set ps" and res: "res = score_item cfg h s (item_at s p)"
    using in_scores set_calculateProductScores [of cfg h s its] its by auto
  have len: "p < length (normalizedData s)" using sound p by blast
  have prod: "products s ! p = product_of (normalizedData s ! p)"
    using assms(1) len by (simp add: catalog_ok_def)
  have veto: "score res = 0" if "currentRubro s \<noteq> []" "rubro (product res) \<noteq> currentRubro s"
    using that score_item_veto [of s "item_at s p" cfg h] by (simp add: res)
  show "res \<in> answers cfg h s0 (searchTerm s) (currentRubro s)"
    unfolding answers_def
    using len sound p prod thr veto assms(2) by (auto simp: res intro!: exI [of _ p])
qed

lemma set_sortResults_arrays:
  assumes "a < length (arrays s)"
  shows "set (arrays (sortResults sortType s) ! a) = set (arrays s ! a)"
proof (cases "a = results s")
  case True
  then show ?thesis
    using assms by (simp add: sortResults_arrays array_at_def)
next
  case False
  then show ?thesis by (simp add: sortResults_arrays)
qed

lemma cache_sound_frame:
  assumes "cache_sound cfg h s0 s" "searchCache s' = searchCache s"
    and "length (arrays s) \<le> length (arrays s')"
    and "\<forall>a < length (arrays s). set (arrays s' ! a) = set (arrays s ! a)"
  shows "cache_sound cfg h s0 s'"
  using assms unfolding cache_sound_def by fastforce

lemma cache_sound_miss:
  assumes "cache_sound cfg h s0 s" "catalog_ok s" "normalizedData s = normalizedData s0"
    and "map_of (searchCache s) (getCacheKey s) = None"
    and "performSearch cfg h s = Inr s'"
  shows "cache_sound cfg h s0 s'"
proof -
  obtain its where its: "findRelevantProducts h s = Inr its"
    using findRelevantProducts_ok [OF assms(2)] by blast
  let ?rs = "ranked cfg (calculateProductScores cfg h s its)"
  note miss = current_results_miss [OF assms(4) its assms(5)]
  have cache: "searchCache s' = map_set (getCacheKey s) (Suc (length (arrays s))) (evict cfg (searchCache s))"
    using performSearch_cache [OF assms(5)] assms(4) by (simp add: map_of_eq_None_iff)
  have sub: "set (searchCache s') \<subseteq> insert (getCacheKey s, Suc (length (arrays s))) (set (searchCache s))"
    unfolding cache using set_map_set set_evict by fastforce
  have new: "set (arrays s' ! Suc (length (arrays s))) \<subseteq> answers cfg h s0 (searchTerm s) (currentRubro s)"
    using miss_answers [OF assms(2,3) its] by (simp add: miss(2) nth_append)
  have key: "getCacheKey s = cache_key (searchTerm s, currentRubro s)"
    by (simp add: getCacheKey_def cache_key_def)
  show ?thesis
    unfolding cache_sound_def
  proof (intro ballI, clarify)
    fix k a
    assume "(k, a) \<in> set (searchCache s')"
    then consider "(k, a) = (getCacheKey s, Suc (length (arrays s)))" | "(k, a) \<in> set (searchCache s)"
      using sub by blast
    then show "a < length (arrays s') \<and>
        (\<exists>t r. k = cache_key (t, r) \<and> set (arrays s' ! a) \<subseteq> answers cfg h s0 t r)"
    proof cases
      case 1
      then show ?thesis using new key by (auto simp: miss(2))
    next
      case 2
      then have "a < length (arrays s)"
        and "\<exists>t r. k = cache_key (t, r) \<and> set (arrays s ! a) \<subseteq> answers cfg h s0 t r"
        using assms(1) unfolding cache_sound_def by auto
      then show ?thesis by (auto simp: miss(2) nth_append)
    qed
  qed
qed

lemma cache_sound_performSearch:
  assumes "cache_sound cfg h s0 s" "catalog_ok s" "normalizedData s = normalizedData s0"
    and "performSearch cfg h s = Inr s'"
  shows "cache_sound cfg h s0 s'"
proof (cases "map_of (searchCache s) (getCacheKey s)")
  case None
  then show ?thesis using cache_sound_miss assms by blast
next
  case (Some a)
  note hit = current_results_hit [OF Some assms(4)]
  show ?thesis
    using assms(1) by (rule cache_sound_frame) (simp_all add: hit)
qed

lemma cache_sound_reachable:
  assumes "init h raw = Inr s0" "reachable cfg h s0 s"
  shows "cache_sound cfg h s0 s"
  using assms(2)
proof (induction rule: reachable.induct)
  case loaded
  then show ?case using init_state(1) [OF assms(1)] by (simp add: cache_sound_def)
next
  case (input s t)
  from input.IH show ?case by (rule cache_sound_frame) simp_all
next
  case (rubroFilter s r)
  from rubroFilter.IH show ?case by (rule cache_sound_frame) simp_all
next
  case (performed s s')
  have "catalog_ok s"
    using init_state(4) [OF assms(1)] performed.hyps(1) by (rule catalog_ok_reachable)
  moreover have "normalizedData s = normalizedData s0"
    using reachable_catalog [OF performed.hyps(1)] by simp
  ultimately show ?case
    using cache_sound_performSearch performed.IH performed.hyps(2) by blast
next
  case (sorted s sortType)
  from sorted.IH show ?case
    by (rule cache_sound_frame) (simp_all add: set_sortResults_arrays)
next
  case (cleared s)
  from cleared.IH show ?case by (rule cache_sound_frame) (simp_all add: nth_append)
next
  case (scrolled s near)
  from scrolled.IH show ?case by (rule cache_sound_frame) simp_all
qed

section \<open>Every result has every query word\<close>

lemma trim_Nil [simp]: "trim [] = []"
  by (simp add: trim_def)

lemma processProduct_rubro:
  assumes "processProduct h i p = Inr (Some n)"
  shows "rubro_in_text h n"
proof -
  let ?C = "ToString h (p ''codigo'')" and ?D = "ToString h (p ''descripcion'')"
  let ?M = "ToString h (p ''marca'')" and ?R = "ToString h (p ''rubro'')"
  have r: "rubro n = trim (ToString h (js_or (p ''rubro'') (Str [])))"
    and t: "searchText n = normalizeSearchText h (?C @ [32] @ ?D @ [32] @ ?M @ [32] @ ?R)"
    using assms by (auto simp: processProduct_def normalizeText_val_cases split: if_splits)
  show ?thesis
  proof (cases "truthy (p ''rubro'')")
    case False
    then show ?thesis by (simp add: rubro_in_text_def r js_or_def)
  next
    case True
    then have "words_of h (rubro n) = words_of h ?R"
      by (simp add: r js_or_def)
    moreover have "tokens (searchText n) = words_of h (?C @ 32 # ?D @ 32 # ?M @ 32 # ?R)"
      by (simp add: t words_of_def)
    moreover have "words_of h ?R \<subseteq> words_of h (?C @ 32 # ?D @ 32 # ?M @ 32 # ?R)"
      by (simp add: words_of_separated) blast
    ultimately show ?thesis by (simp add: rubro_in_text_def)
  qed
qed

lemma processProducts_loop_rubro:
  assumes "processProducts_loop h i ps s = Inr s'"
    and "\<forall>n \<in> set (normalizedData s). rubro_in_text h n"
  shows "\<forall>n \<in> set (normalizedData s'). rubro_in_text h n"
  using assms
proof (induction ps arbitrary: i s)
  case Nil
  then show ?case by simp
next
  case (Cons p ps)
  show ?case
  proof (cases "processProduct h i p")
    case (Inl e)
    then show ?thesis using Cons.prems(1) by simp
  next
    case (Inr kept)
    show ?thesis
    proof (cases kept)
      case None
      then show ?thesis using Cons Inr by simp
    next
      case (Some n)
      then have "rubro_in_text h n" using Inr processProduct_rubro by blast
      then show ?thesis
        using Cons.prems Inr Some
        by (intro Cons.IH [of "Suc i" "s\<lparr> products := products s @ [product_of n],
                normalizedData := normalizedData s @ [n],
                rubros := (if rubro n \<noteq> [] then set_add (rubro n) (rubros s) else rubros s) \<rparr>"]) auto
    qed
  qed
qed

lemma init_rubro:
  assumes "init h raw = Inr s0"
  shows "\<forall>n \<in> set (normalizedData s0). rubro_in_text h n"
proof -
  obtain s1 where p: "processProducts h raw constructor = Inr s1" and s0: "s0 = buildSearchStructures s1"
    using assms by (auto simp: init_def split: sum.splits)
  have "\<forall>n \<in> set (normalizedData s1). rubro_in_text h n"
    using processProducts_loop_rubro [OF p [unfolded processProducts_def]] by simp
  then show ?thesis by (simp add: s0)
qed

lemma key_collision:
  assumes "cache_key (t, r) = cache_key (q, c)"
  shows "t = q \<or> (\<exists>u. t = q @ 45 # u) \<or> (\<exists>u. q = t @ 45 # u \<and> r = u @ 45 # c)"
proof -
  have "t @ 45 # r = q @ 45 # c" using assms by (simp add: cache_key_def)
  then obtain us where "t = q @ us \<and> us @ 45 # r = 45 # c \<or> t @ us = q \<and> 45 # r = us @ 45 # c"
    by (auto simp: append_eq_append_conv2)
  then show ?thesis
    by (cases us) auto
qed

lemma colliding_answers:
  assumes key: "cache_key (t, r) = cache_key (q, c)"
    and res: "res \<in> answers cfg h s0 t r"
    and min: "0 < MIN_SCORE cfg"
    and rub: "\<forall>n \<in> set (normalizedData s0). rubro_in_text h n"
    and w: "w \<in> set (searchWords h q)"
  shows "w \<in> set (split_ws (searchText (normalized res)))"
proof -
  obtain p where p: "p < length (normalizedData s0)"
    and n: "normalized res = normalizedData s0 ! p"
    and pr: "product res = product_of (normalizedData s0 ! p)"
    and words: "\<forall>w \<in> set (searchWords h t). w \<in> set (split_ws (searchText (normalizedData s0 ! p)))"
    and thr: "MIN_SCORE cfg \<le> score res"
    and veto: "r \<noteq> [] \<and> rubro (product res) \<noteq> r \<longrightarrow> score res = 0"
    using res unfolding answers_def by blast
  have wq: "w \<in> words_of h q" and len: "2 \<le> length w"
    using w by (simp_all add: set_searchWords)
  have via_t: ?thesis if "w \<in> words_of h t"
    using that len words n by (simp add: set_searchWords)
  from key_collision [OF key] consider "t = q" | u where "t = q @ 45 # u"
    | u where "q = t @ 45 # u" "r = u @ 45 # c"
    by blast
  then show ?thesis
  proof cases
    case 1
    then show ?thesis using via_t wq by simp
  next
    case 2
    then show ?thesis using via_t wq by (simp add: words_of_separated)
  next
    case 3
    then have "w \<in> words_of h t \<or> w \<in> words_of h u"
      using wq by (simp add: words_of_separated)
    then show ?thesis
    proof
      assume "w \<in> words_of h t"
      then show ?thesis by (rule via_t)
    next
      assume wu: "w \<in> words_of h u"
      have "r \<noteq> []" using 3(2) by simp
      moreover have "score res \<noteq> 0" using min thr by simp
      ultimately have "rubro (product res) = r" using veto by blast
      then have rn: "rubro (normalizedData s0 ! p) = r"
        by (simp add: pr product_of_def)
      have "rubro_in_text h (normalizedData s0 ! p)"
        using rub p by simp
      then have "words_of h r \<subseteq> tokens (searchText (normalizedData s0 ! p))"
        using rn \<open>r \<noteq> []\<close> by (simp add: rubro_in_text_def)
      moreover have "w \<in> words_of h r"
        using wu 3(2) by (simp add: words_of_separated)
      ultimately show ?thesis
        using n tokens_member by auto
    qed
  qed
qed

text \<open>
  Claim C1.  In every state of a loaded engine whose threshold \<open>MIN_SCORE\<close> is
  positive (it is 0.15), a search for any query text and any category returns, and the
  search text of every result it returns contains every query word (every word of at
  least two code units of the normalized query) as one of its white-space delimited
  words.  This covers the searches answered from the cache, also where the key of
  another query and category coincides with the key asked for.
\<close>

theorem results_have_every_query_word:
  assumes "init h raw = Inr s0" and "reachable cfg h s0 s" and "0 < MIN_SCORE cfg"
  shows "\<exists>s'. search cfg h q c s = Inr s' \<and>
           (\<forall>res \<in> set (current_results s'). \<forall>w \<in> set (searchWords h q).
               w \<in> set (split_ws (searchText (normalized res))))"
proof -
  let ?s = "s\<lparr> searchTerm := q, currentRubro := c \<rparr>"
  have reach: "reachable cfg h s0 ?s"
    using assms(2) by (intro reachable.rubroFilter reachable.input)
  have ok: "catalog_ok ?s"
    using init_state(4) [OF assms(1)] reach by (rule catalog_ok_reachable)
  have nd: "normalizedData ?s = normalizedData s0"
    using reachable_catalog [OF reach] by simp
  have sound: "cache_sound cfg h s0 ?s"
    using assms(1) reach by (rule cache_sound_reachable)
  obtain s' where s': "performSearch cfg h ?s = Inr s'"
    using performSearch_total [OF ok] by blast
  have "w \<in> set (split_ws (searchText (normalized res)))"
    if res: "res \<in> set (current_results s')" and w: "w \<in> set (searchWords h q)" for res w
  proof (cases "map_of (searchCache ?s) (getCacheKey ?s)")
    case None
    obtain its where its: "findRelevantProducts h ?s = Inr its"
      using findRelevantProducts_ok [OF ok] by blast
    have "res \<in> answers cfg h s0 q c"
      using miss_answers [OF ok nd its, of cfg] res current_results_miss(1) [OF None its s'] by auto
    then show ?thesis
      using colliding_answers [OF refl _ assms(3) init_rubro [OF assms(1)] w] by blast
  next
    case (Some a)
    then have "(getCacheKey ?s, a) \<in> set (searchCache ?s)" by (rule map_of_SomeD)
    then obtain t r where a: "a < length (arrays ?s)" and key: "getCacheKey ?s = cache_key (t, r)"
      and sub: "set (arrays ?s ! a) \<subseteq> answers cfg h s0 t r"
      using sound unfolding cache_sound_def by fastforce
    have "current_results s' = arrays ?s ! a"
      using current_results_hit(1) [OF Some s'] a by (simp add: array_at_def)
    then have "res \<in> answers cfg h s0 t r" using res sub by auto
    moreover have "cache_key (t, r) = cache_key (q, c)" using key by simp
    ultimately show ?thesis
      using colliding_answers [OF _ _ assms(3) init_rubro [OF assms(1)] w] by blast
  qed
  then show ?thesis
    using s' by (auto simp: search_def)
qed

section \<open>The scenarios, evaluated\<close>

lemmas string_eval = js_def is_ws_def is_az09_def is_wordchar_def is_combining_def trim_def
  lower_nfd_def normalizeText_def replace_symbols_def normalizeSearchText_def split_ws_def
  boundary_def first_unit_def matches_here_def ascii_host_def sublist_Cons_right

lemmas load_eval = init_def processProducts_def constructor_def raw_record_def processProduct_def
  normalizeText_val_def js_or_def num_or_zero_def product_of_def set_add_def
  buildSearchStructures_def new_Set_def index_word_def the_state_def shop_engine_def shop_def

lemmas search_eval = search_def performSearch_def getCacheKey_def findRelevantProducts_def
  searchWords_def index_get_def candidate_def calculateProductScores_def score_item_def
  word_score_def CONFIG_def cacheSearchResults_def map_delete_def renderResults_def
  renderProductBatch_def array_at_def array_sort_def Let_def current_results_def
  sortChange_def sortResults_def

lemmas scenario_states = after_ab_def after_ab_again_def after_price_sort_def after_ab_third_def
  after_abc_in_d_def after_ab_in_cd_def

lemma shop_loaded: "init ascii_host shop = Inr shop_engine"
  by (simp add: load_eval string_eval)

lemma search_ab: "search CONFIG ascii_host (js ''ab'') [] shop_engine = Inr after_ab"
  by (simp add: scenario_states load_eval string_eval search_eval)

lemma search_ab_again: "search CONFIG ascii_host (js ''ab'') [] after_ab = Inr after_ab_again"
  by (simp add: scenario_states load_eval string_eval search_eval)

lemma search_ab_third: "search CONFIG ascii_host (js ''ab'') [] after_price_sort = Inr after_ab_third"
  by (simp add: scenario_states load_eval string_eval search_eval)

lemma search_abc_in_d:
  "search CONFIG ascii_host (js ''ab-c'') (js ''d'') shop_engine = Inr after_abc_in_d"
  by (simp add: scenario_states load_eval string_eval search_eval)

lemma search_ab_in_cd:
  "search CONFIG ascii_host (js ''ab'') (js ''c-d'') after_abc_in_d = Inr after_ab_in_cd"
  by (simp add: scenario_states load_eval string_eval search_eval)

text \<open>
  Claim C2 fails on the code.  In the two-product catalog the query \<open>ab\<close> is the code of
  the first product: the exact code match weighs 100 and the whole-word occurrence in
  the search text 5, and the sum divided by 100 is 1.05.
\<close>

theorem exact_code_match_scores_above_one:
  "init ascii_host shop = Inr shop_engine \<and>
   search CONFIG ascii_host (js ''ab'') [] shop_engine = Inr after_ab \<and>
   map (codigo \<circ> product) (current_results after_ab) = [js ''ab'', js ''x1''] \<and>
   map score (current_results after_ab) = [105 / 100, 40 / 100]"
proof -
  have "map (codigo \<circ> product) (current_results after_ab) = [js ''ab'', js ''x1'']"
    by (simp add: scenario_states load_eval string_eval search_eval)
  moreover have "map score (current_results after_ab) = [105 / 100, 40 / 100]"
    by (simp add: scenario_states load_eval string_eval search_eval)
  ultimately show ?thesis
    using shop_loaded search_ab by simp
qed

text \<open>
  Claim C4 fails on the code.  The cache key joins the query text and the category with
  a hyphen, so \<open>ab-c\<close> in category \<open>d\<close> and \<open>ab\<close> in category \<open>c-d\<close> share the key
  \<open>ab-c-d\<close>: the second search is served the list stored by the first, whose product
  is of category \<open>d\<close>.
\<close>

theorem colliding_key_serves_other_category:
  "init ascii_host shop = Inr shop_engine \<and>
   search CONFIG ascii_host (js ''ab-c'') (js ''d'') shop_engine = Inr after_abc_in_d \<and>
   search CONFIG ascii_host (js ''ab'') (js ''c-d'') after_abc_in_d = Inr after_ab_in_cd \<and>
   currentRubro after_ab_in_cd = js ''c-d'' \<and>
   map (rubro \<circ> product) (current_results after_ab_in_cd) = [js ''d'']"
proof -
  have "currentRubro after_ab_in_cd = js ''c-d''"
    by (simp add: scenario_states load_eval string_eval search_eval)
  moreover have "map (rubro \<circ> product) (current_results after_ab_in_cd) = [js ''d'']"
    by (simp add: scenario_states load_eval string_eval search_eval)
  ultimately show ?thesis
    using shop_loaded search_abc_in_d search_ab_in_cd by simp
qed

text \<open>
  Claim C5 fails on the code.  The query \<open>ab\<close> is searched twice, so that the second
  search installs the cached array; the results are then sorted by ascending price,
  which sorts the cached array; the third search returns it as it is, the lower score
  first.
\<close>

theorem hit_after_price_sort_is_not_ranked:
  "init ascii_host shop = Inr shop_engine \<and>
   search CONFIG ascii_host (js ''ab'') [] shop_engine = Inr after_ab \<and>
   search CONFIG ascii_host (js ''ab'') [] after_ab = Inr after_ab_again \<and>
   after_price_sort = sortChange CONFIG (js ''price_asc'') after_ab_again \<and>
   search CONFIG ascii_host (js ''ab'') [] after_price_sort = Inr after_ab_third \<and>
   map score (current_results after_ab) = [105 / 100, 40 / 100] \<and>
   map score (current_results after_ab_third) = [40 / 100, 105 / 100]"
proof -
  have "map score (current_results after_ab) = [105 / 100, 40 / 100]"
    by (simp add: scenario_states load_eval string_eval search_eval)
  moreover have "map score (current_results after_ab_third) = [40 / 100, 105 / 100]"
    by (simp add: scenario_states load_eval string_eval search_eval)
  ultimately show ?thesis
    using shop_loaded search_ab search_ab_again search_ab_third
    by (simp add: after_price_sort_def)
qed

section \<open>Witnesses\<close>

text \<open>
  The claim C3 as it stands fails: a record whose price is the number 0 has all three
  fields and is dropped, and a record with a negative price is kept with that price.
\<close>

theorem zero_price_dropped_negative_price_kept:
  "free_record ''codigo'' \<noteq> Undefined \<and> free_record ''descripcion'' \<noteq> Undefined \<and>
   free_record ''precio_venta'' = Num (Fin 0) \<and>
   processProduct ascii_host 0 free_record = Inr None \<and>
   refund_record ''precio_venta'' = Num (Fin (- 5)) \<and>
   processProduct ascii_host 0 refund_record =
     Inr (Some \<lparr> codigo = js ''ab'', descripcion = js ''cd'', rubro = js ''d'', marca = js ''zz'',
       precio_venta = Fin (- 5), index = 0, searchText = js ''ab cd zz d'',
       codigoNormalized = js ''ab'', descripcionNormalized = js ''cd'',
       marcaNormalized = js ''zz'', rubroNormalized = js ''d'' \<rparr>)"
  by (simp add: free_record_def refund_record_def load_eval string_eval)

text \<open>A record whose price is the string \<open>n/a\<close> is kept, at the price 0.\<close>

theorem kept_records_and_prices_witness:
  "complete unpriced_record \<and> texts_ok unpriced_record \<and>
   ToNumber ascii_host (unpriced_record ''precio_venta'') = NaN \<and>
   (\<exists>n. processProduct ascii_host 0 unpriced_record = Inr (Some n) \<and> precio_venta n = Fin 0)"
proof -
  have c: "complete unpriced_record" and t: "texts_ok unpriced_record"
    by (simp_all add: complete_def texts_ok_def is_Str_def unpriced_record_def raw_record_def js_or_def js_def)
  have nan: "ToNumber ascii_host (unpriced_record ''precio_venta'') = NaN"
    by (simp add: unpriced_record_def raw_record_def ascii_host_def)
  obtain n where n: "processProduct ascii_host 0 unpriced_record = Inr (Some n)"
    using kept_records_and_prices [of unpriced_record ascii_host 0] c t by blast
  have "precio_venta n = Fin 0"
    using kept_records_and_prices [of unpriced_record ascii_host 0 n] n nan by simp
  then show ?thesis using c t nan n by blast
qed

text \<open>The index of the two-product catalog has the word \<open>ab\<close> at both positions.\<close>

theorem index_tokens_and_positions_witness:
  "init ascii_host shop = Inr shop_engine \<and>
   (js ''ab'', [0, Suc 0]) \<in> set (searchIndex shop_engine) \<and>
   2 \<le> length (js ''ab'') \<and> Suc 0 < length (normalizedData shop_engine)"
proof -
  have m: "(js ''ab'', [0, Suc 0]) \<in> set (searchIndex shop_engine)"
    by (simp add: load_eval string_eval)
  show ?thesis
    using index_tokens_and_positions [OF shop_loaded] m shop_loaded by fastforce
qed

text \<open>The two searches on the freshly loaded two-product catalog.\<close>

theorem search_twice_witness:
  "init ascii_host shop = Inr shop_engine \<and>
   reachable CONFIG ascii_host shop_engine shop_engine \<and>
   (\<exists>s1 s2. search CONFIG ascii_host (js ''ab'') [] shop_engine = Inr s1 \<and>
            search CONFIG ascii_host (js ''ab'') [] s1 = Inr s2 \<and>
            current_results s2 = current_results s1)"
  using search_twice [OF shop_loaded reachable.loaded, of CONFIG "js ''ab''" "[]"]
    shop_loaded reachable.loaded [of CONFIG ascii_host shop_engine]
  by blast

text \<open>With room for one entry, the second of two searches evicts the key of the first.\<close>

theorem cache_bound_and_eviction_witness:
  "init ascii_host shop = Inr shop_engine \<and>
   0 < CACHE_SIZE (CONFIG \<lparr> CACHE_SIZE := 1 \<rparr>) \<and>
   reachable (CONFIG \<lparr> CACHE_SIZE := 1 \<rparr>) ascii_host shop_engine shop_engine \<and>
   distinct (map cache_key [(js ''ab'', []), (js ''x1'', [])]) \<and>
   CACHE_SIZE (CONFIG \<lparr> CACHE_SIZE := 1 \<rparr>) < length [(js ''ab'', []), (js ''x1'', [])] \<and>
   length (searchCache shop_engine) \<le> CACHE_SIZE (CONFIG \<lparr> CACHE_SIZE := 1 \<rparr>) \<and>
   (\<exists>s'. searches (CONFIG \<lparr> CACHE_SIZE := 1 \<rparr>) ascii_host [(js ''ab'', []), (js ''x1'', [])] shop_engine = Inr s' \<and>
         map fst (searchCache s') = [js ''x1-''] \<and>
         js ''ab-'' \<notin> fst ` set (searchCache s'))"
proof -
  have pos: "0 < CACHE_SIZE (CONFIG \<lparr> CACHE_SIZE := 1 \<rparr>)" by simp
  have d: "distinct (map cache_key [(js ''ab'', []), (js ''x1'', [])])"
    by (simp add: cache_key_def js_def)
  have l: "CACHE_SIZE (CONFIG \<lparr> CACHE_SIZE := 1 \<rparr>) < length [(js ''ab'', []), (js ''x1'', []) :: jsstring \<times> jsstring]"
    by simp
  have r: "reachable (CONFIG \<lparr> CACHE_SIZE := 1 \<rparr>) ascii_host shop_engine shop_engine"
    by (rule reachable.loaded)
  show ?thesis
    using cache_bound_and_eviction [OF shop_loaded pos, of shop_engine "[(js ''ab'', []), (js ''x1'', [])]"]
      shop_loaded d l r
    by (auto simp: cache_key_def js_def simp del: searches.simps)
qed

text \<open>
  In the two-product catalog: after a first search for \<open>ab\<close> the cache holds the array
  at address 2; the second search installs it; the sort by ascending price puts the
  cheaper product, of the lower score, first in it; the third search returns that.
\<close>

theorem hit_shares_cached_array_witness:
  "map_of (searchCache after_ab) (getCacheKey after_ab) = Some 2 \<and>
   2 < length (arrays after_ab) \<and>
   performSearch CONFIG ascii_host after_ab = Inr after_ab_again \<and>
   results after_ab_again = 2 \<and>
   map score (array_at after_ab 2) = [105 / 100, 40 / 100] \<and>
   map (precio_venta \<circ> product) (array_at after_ab 2) = [Fin 10, Fin 5] \<and>
   map score (array_at after_price_sort 2) = [40 / 100, 105 / 100] \<and>
   performSearch CONFIG ascii_host after_price_sort = Inr after_ab_third \<and>
   map score (current_results after_ab_third) = [40 / 100, 105 / 100] \<and>
   sorted_wrt (in_order by_price_asc) (current_results after_ab_third)"
proof -
  have h: "map_of (searchCache after_ab) (getCacheKey after_ab) = Some 2"
    by (simp add: scenario_states load_eval string_eval search_eval)
  have a: "2 < length (arrays after_ab)"
    by (simp add: scenario_states load_eval string_eval search_eval)
  have p: "performSearch CONFIG ascii_host after_ab = Inr after_ab_again"
    by (simp add: scenario_states load_eval string_eval search_eval)
  have sc: "map score (array_at after_ab 2) = [105 / 100, 40 / 100]"
    by (simp add: scenario_states load_eval string_eval search_eval)
  have pr: "map (precio_venta \<circ> product) (array_at after_ab 2) = [Fin 10, Fin 5]"
    by (simp add: scenario_states load_eval string_eval search_eval)
  have nn: "\<forall>r \<in> set (array_at after_ab 2). precio_venta (product r) \<noteq> NaN"
    by (simp add: scenario_states load_eval string_eval search_eval)
  have p3: "performSearch CONFIG ascii_host after_price_sort = Inr after_ab_third"
    by (simp add: scenario_states load_eval string_eval search_eval)
  have sc2: "map score (array_at after_price_sort 2) = [40 / 100, 105 / 100]"
    by (simp add: scenario_states load_eval string_eval search_eval)
  have sc3: "map score (current_results after_ab_third) = [40 / 100, 105 / 100]"
    by (simp add: scenario_states load_eval string_eval search_eval)
  from hit_shares_cached_array [OF h a p, of "js ''price_asc''"]
  have "results after_ab_again = 2"
    and "\<exists>s3. performSearch CONFIG ascii_host after_price_sort = Inr s3 \<and>
           sorted_wrt (in_order by_price_asc) (current_results s3)"
    using nn by (auto simp: after_price_sort_def)
  then show ?thesis
    using h a p sc pr sc2 p3 sc3 by auto
qed

text \<open>
  The search for \<open>ab\<close> in category \<open>c-d\<close> that is answered with the list cached for
  \<open>ab-c\<close> in category \<open>d\<close>: its one result has the word \<open>ab\<close>.
\<close>

theorem results_have_every_query_word_witness:
  "init ascii_host shop = Inr shop_engine \<and>
   reachable CONFIG ascii_host shop_engine after_abc_in_d \<and>
   0 < MIN_SCORE CONFIG \<and>
   search CONFIG ascii_host (js ''ab'') (js ''c-d'') after_abc_in_d = Inr after_ab_in_cd \<and>
   searchWords ascii_host (js ''ab'') = [js ''ab''] \<and>
   map (searchText \<circ> normalized) (current_results after_ab_in_cd) = [js ''ab cd ef zz d''] \<and>
   list_all (\<lambda>res. js ''ab'' \<in> set (split_ws (searchText (normalized res))))
     (current_results after_ab_in_cd)"
proof -
  have r: "reachable CONFIG ascii_host shop_engine after_abc_in_d"
    using reachable.loaded search_abc_in_d by (rule reachable_search)
  have m: "0 < MIN_SCORE CONFIG" by (simp add: CONFIG_def)
  have w: "searchWords ascii_host (js ''ab'') = [js ''ab'']"
    by (simp add: searchWords_def string_eval)
  have t: "map (searchText \<circ> normalized) (current_results after_ab_in_cd) = [js ''ab cd ef zz d'']"
    by (simp add: scenario_states load_eval string_eval search_eval)
  obtain s' where "search CONFIG ascii_host (js ''ab'') (js ''c-d'') after_abc_in_d = Inr s'"
    and "\<forall>res \<in> set (current_results s'). \<forall>w \<in> set (searchWords ascii_host (js ''ab'')).
            w \<in> set (split_ws (searchText (normalized res)))"
    using results_have_every_query_word [OF shop_loaded r m, of "js ''ab''" "js ''c-d''"] by blast
  then have "list_all (\<lambda>res. js ''ab'' \<in> set (split_ws (searchText (normalized res))))
     (current_results after_ab_in_cd)"
    using search_ab_in_cd by (simp add: w list_all_iff)
  then show ?thesis
    using shop_loaded r m search_ab_in_cd w t by simp
qed

end
